theory Spec2Isabelle
  imports Main "HOL-Library.AList" "HOL-Library.Sublist"
begin

section \<open>The namespace registry and debug loader of \<^verbatim>\<open>closure/goog/base.js\<close>\<close>

text \<open>
  The development embeds the uncompiled mode of \<^verbatim>\<open>base.js\<close> (\<^verbatim>\<open>COMPILED = false\<close>,
  \<^verbatim>\<open>goog.ENABLE_DEBUG_LOADER = true\<close>, as the file sets them): \<^verbatim>\<open>goog.provide\<close>,
  \<^verbatim>\<open>goog.isProvided_\<close>, \<^verbatim>\<open>goog.exportPath_\<close>, \<^verbatim>\<open>goog.getObjectByName\<close>,
  \<^verbatim>\<open>goog.addDependency\<close>, \<^verbatim>\<open>goog.require\<close>, \<^verbatim>\<open>goog.importScript_\<close>,
  \<^verbatim>\<open>goog.writeScripts_\<close> with its inner \<^verbatim>\<open>visitNode\<close>, and \<^verbatim>\<open>goog.getPathFromDeps_\<close>.
  A constant is named as in the source, without the trailing underscore of a private name.
\<close>

subsection \<open>JavaScript values\<close>

text \<open>
  The values that can sit in the namespace tree under \<^verbatim>\<open>goog.global\<close>. An object is the
  list of its own properties in insertion order (functions are objects here). Numbers are
  integers (no \<^verbatim>\<open>NaN\<close>), and the tree has no sharing between namespaces. The tree holds
  own data properties only (no getters or setters): what an object inherits from its
  prototype and what a primitive value has built in (\<^verbatim>\<open>'en'.length\<close>,
  \<^verbatim>\<open>{}.constructor\<close>) is not in it. The names of those properties are listed as
  \<open>builtin_key\<close> below; the statements on declaring a name again, on a requirement that
  nothing provides and on names that do not resolve take names no part of which is one of
  them.
\<close>

datatype jsval =
    Undefined
  | Null
  | Bool bool
  | Num int
  | Str string
  | Obj "(string \<times> jsval) list"

text \<open>JavaScript's \<^verbatim>\<open>ToBoolean\<close>, used by every \<^verbatim>\<open>if (x)\<close> and \<^verbatim>\<open>!!x\<close> of the source.\<close>

fun truthy :: "jsval \<Rightarrow> bool" where
  "truthy Undefined = False"
| "truthy Null = False"
| "truthy (Bool b) = b"
| "truthy (Num n) = (n \<noteq> 0)"
| "truthy (Str s) = (s \<noteq> [])"
| "truthy (Obj ps) = True"

text \<open>\<^verbatim>\<open>goog.isDef\<close>: \<^verbatim>\<open>val !== undefined\<close>.\<close>

fun isDef :: "jsval \<Rightarrow> bool" where
  "isDef Undefined = False"
| "isDef v = True"

text \<open>\<^verbatim>\<open>goog.isDefAndNotNull\<close>: \<^verbatim>\<open>val != null\<close>, which is false for undefined too.\<close>

fun isDefAndNotNull :: "jsval \<Rightarrow> bool" where
  "isDefAndNotNull Undefined = False"
| "isDefAndNotNull Null = False"
| "isDefAndNotNull v = True"

text \<open>
  \<^verbatim>\<open>cur[part]\<close> for a part that is no \<open>builtin_key\<close>: a missing property reads as
  undefined; so does any such property of a primitive value. The source never reads a
  property of undefined or null.
\<close>

fun get_prop :: "jsval \<Rightarrow> string \<Rightarrow> jsval" where
  "get_prop (Obj ps) part = (case map_of ps part of None \<Rightarrow> Undefined | Some v \<Rightarrow> v)"
| "get_prop v part = Undefined"

text \<open>
  \<^verbatim>\<open>cur[part] = v\<close>, returning the updated \<^verbatim>\<open>cur\<close>: a new key goes to the end of the
  object; outside strict mode an assignment to a property of a primitive value is
  silently dropped.
\<close>

fun set_prop :: "jsval \<Rightarrow> string \<Rightarrow> jsval \<Rightarrow> jsval" where
  "set_prop (Obj ps) part v = Obj (AList.update part v ps)"
| "set_prop cur part v = cur"

text \<open>\<^verbatim>\<open>name.split('.')\<close>: the empty string splits into one empty part.\<close>

fun split :: "char \<Rightarrow> string \<Rightarrow> string list" where
  "split sep [] = [[]]"
| "split sep (c # cs) =
     (if c = sep then [] # split sep cs
      else (case split sep cs of
              [] \<Rightarrow> [[c]]
            | part # parts \<Rightarrow> (c # part) # parts))"

subsection \<open>Looking a name up and building a path\<close>

text \<open>
  The loop of \<^verbatim>\<open>goog.getObjectByName\<close>, \<^verbatim>\<open>for (var part; part = parts.shift(); )\<close>:
  it ends at the end of the parts and also at the first empty part (the empty string is
  falsy), returning what it has reached; a part that is undefined or null gives null.
\<close>

fun getObjectByName_loop :: "string list \<Rightarrow> jsval \<Rightarrow> jsval" where
  "getObjectByName_loop [] cur = cur"
| "getObjectByName_loop (part # parts) cur =
     (if part = [] then cur
      else if isDefAndNotNull (get_prop cur part)
           then getObjectByName_loop parts (get_prop cur part)
           else Null)"

definition getObjectByName :: "string \<Rightarrow> jsval \<Rightarrow> jsval" where
  "getObjectByName name cur = getObjectByName_loop (split (CHR ''.'') name) cur"

text \<open>
  The loop of \<^verbatim>\<open>goog.exportPath_\<close>,
  \<^verbatim>\<open>for (var part; parts.length && (part = parts.shift());)\<close>, on the value \<^verbatim>\<open>cur\<close>
  points to; the result is that value after the loop has run below it. The source walks
  down by reference (\<^verbatim>\<open>cur = cur[part]\<close>), so what it builds below a property is written
  back into the property here. An omitted \<^verbatim>\<open>opt_object\<close> is undefined. The
  \<^verbatim>\<open>execScript\<close> call for Internet Explorer declares a variable without a value and is
  left out.
\<close>

fun exportPath_loop :: "string list \<Rightarrow> jsval \<Rightarrow> jsval \<Rightarrow> jsval" where
  "exportPath_loop [] opt_object cur = cur"
| "exportPath_loop (part # parts) opt_object cur =
     (if part = [] then cur
      else if parts = [] \<and> isDef opt_object then set_prop cur part opt_object
      else if truthy (get_prop cur part)
           then set_prop cur part (exportPath_loop parts opt_object (get_prop cur part))
           else set_prop cur part (exportPath_loop parts opt_object (Obj [])))"

definition exportPath :: "string \<Rightarrow> jsval \<Rightarrow> jsval \<Rightarrow> jsval" where
  "exportPath name opt_object cur = exportPath_loop (split (CHR ''.'') name) opt_object cur"

subsection \<open>The process-wide state\<close>

text \<open>
  \<^verbatim>\<open>goog.dependencies_\<close>. An object that the source iterates with \<^verbatim>\<open>for .. in\<close> keeps
  its keys in insertion order (a list; keys that look like array indices, which an engine
  may enumerate first, are not set apart); one that is only asked \<^verbatim>\<open>key in obj\<close> is a
  set. These tables are plain objects too, and hold their own keys here: a key that
  \<^verbatim>\<open>Object.prototype\<close> defines (\<^verbatim>\<open>'constructor' in deps.nameToPath\<close> is true in the
  source) is a \<open>builtin_key\<close>, left out in the same way.
\<close>

record deps =
  pathToNames :: "(string \<times> string list) list"
  nameToPath :: "(string \<times> string) list"
  requires :: "(string \<times> string list) list"
  visited :: "string set"
  written :: "string set"

record goog_state =
  global :: jsval
  implicitNamespaces :: "string set"
  included :: "string list"
  dependencies :: deps
  basePath :: string

text \<open>Every \<^verbatim>\<open>throw Error(msg)\<close> of the source, with its message.\<close>

datatype error = Error string

datatype completion = Normal | Throw error

text \<open>\<^verbatim>\<open>obj[key] = true\<close> on an object used as an ordered set of keys.\<close>

definition add_key :: "string \<Rightarrow> string list \<Rightarrow> string list" where
  "add_key k ks = (if k \<in> set ks then ks else ks @ [k])"

subsection \<open>\<^verbatim>\<open>goog.provide\<close>\<close>

definition isProvided :: "goog_state \<Rightarrow> string \<Rightarrow> bool" where
  "isProvided S name \<longleftrightarrow>
     name \<notin> implicitNamespaces S \<and> truthy (getObjectByName name (global S))"

text \<open>\<^verbatim>\<open>namespace.substring(0, namespace.lastIndexOf('.'))\<close>, empty when there is no dot.\<close>

definition parent_namespace :: "string \<Rightarrow> string" where
  "parent_namespace namespace =
     (if CHR ''.'' \<in> set namespace
      then rev (tl (dropWhile (\<lambda>c. c \<noteq> CHR ''.'') (rev namespace)))
      else [])"

text \<open>
  The \<^verbatim>\<open>while\<close> loop of \<^verbatim>\<open>goog.provide\<close>: every proper dotted prefix of the name, longest
  first, is marked implicit until one of them already resolves to a truthy value.
\<close>

function provide_loop :: "jsval \<Rightarrow> string set \<Rightarrow> string \<Rightarrow> string set" where
  "provide_loop g implicit namespace =
     (if parent_namespace namespace = [] then implicit
      else if truthy (getObjectByName (parent_namespace namespace) g) then implicit
      else provide_loop g (insert (parent_namespace namespace) implicit)
             (parent_namespace namespace))"
  by pat_completeness auto

text \<open>\<^verbatim>\<open>Error('Namespace "' + name + '" already declared.')\<close>\<close>

definition already_declared :: "string \<Rightarrow> error" where
  "already_declared name =
     Error (''Namespace '' @ [CHR 0x22] @ name @ [CHR 0x22] @ '' already declared.'')"

definition provide :: "goog_state \<Rightarrow> string \<Rightarrow> completion \<times> goog_state" where
  "provide S name =
     (if isProvided S name
      then (Throw (already_declared name), S)
      else (Normal,
            S\<lparr>implicitNamespaces :=
                provide_loop (global S) (implicitNamespaces S - {name}) name,
              global := exportPath name Undefined (global S)\<rparr>))"


text \<open>
  The values on the way to a name are containers: wherever the loop of
  \<^verbatim>\<open>goog.exportPath_\<close> steps into a property that is truthy, it finds an object (below a
  truthy primitive value it would build nothing).
\<close>

fun is_container :: "jsval \<Rightarrow> bool" where
  "is_container (Obj ps) = True"
| "is_container v = False"


subsection \<open>\<^verbatim>\<open>goog.addDependency\<close>\<close>

text \<open>
  One round of each \<^verbatim>\<open>for\<close> loop of \<^verbatim>\<open>goog.addDependency\<close>. The owner of a name
  is assigned without looking at an earlier owner.
\<close>

definition add_provide :: "string \<Rightarrow> deps \<Rightarrow> string \<Rightarrow> deps" where
  "add_provide path d name =
     d\<lparr>nameToPath := AList.update name path (nameToPath d),
       pathToNames :=
         AList.update path
           (add_key name (case map_of (pathToNames d) path of None \<Rightarrow> [] | Some names \<Rightarrow> names))
           (pathToNames d)\<rparr>"

definition add_require :: "string \<Rightarrow> deps \<Rightarrow> string \<Rightarrow> deps" where
  "add_require path d name =
     d\<lparr>requires :=
         AList.update path
           (add_key name (case map_of (requires d) path of None \<Rightarrow> [] | Some names \<Rightarrow> names))
           (requires d)\<rparr>"

text \<open>
  \<^verbatim>\<open>for (var i = 0; provide = provides[i]; i++)\<close> runs up to the first falsy element:
  the end of the array or an empty string. \<^verbatim>\<open>relPath.replace(/\\/g, '/')\<close> turns every
  backslash into a slash.
\<close>

definition replace_backslashes :: "string \<Rightarrow> string" where
  "replace_backslashes relPath = map (\<lambda>c. if c = CHR 0x5C then CHR ''/'' else c) relPath"

text \<open>
  \<^verbatim>\<open>goog.addDependency\<close> has no \<^verbatim>\<open>throw\<close>; with a string and two arrays of strings it
  always returns, so the model returns the state.
\<close>

definition addDependency :: "goog_state \<Rightarrow> string \<Rightarrow> string list \<Rightarrow> string list \<Rightarrow> goog_state" where
  "addDependency S relPath provides requiresList =
     (let path = replace_backslashes relPath;
          d1 = foldl (add_provide path) (dependencies S) (takeWhile (\<lambda>name. name \<noteq> []) provides);
          d2 = foldl (add_require path) d1 (takeWhile (\<lambda>name. name \<noteq> []) requiresList)
      in S\<lparr>dependencies := d2\<rparr>)"

definition getPathFromDeps :: "goog_state \<Rightarrow> string \<Rightarrow> string option" where
  "getPathFromDeps S rule = map_of (nameToPath (dependencies S)) rule"

subsection \<open>\<^verbatim>\<open>goog.writeScripts_\<close> and \<^verbatim>\<open>visitNode\<close>\<close>

text \<open>
  What \<^verbatim>\<open>visitNode\<close> writes: \<^verbatim>\<open>deps.visited\<close> of the process-wide
  \<^verbatim>\<open>goog.dependencies_\<close>, and the two locals \<^verbatim>\<open>seenScript\<close> and \<^verbatim>\<open>scripts\<close> that each
  call of \<^verbatim>\<open>goog.writeScripts_\<close> creates empty. Everything else it only reads, from the
  state \<open>S\<close> the pass started in.
\<close>

record walk =
  deps_visited :: "string set"
  seenScript :: "string set"
  scripts :: "string list"

text \<open>\<^verbatim>\<open>if (!(path in seenScript)) { seenScript[path] = true; scripts.push(path); }\<close>\<close>

definition push_script :: "walk \<Rightarrow> string \<Rightarrow> walk" where
  "push_script w path =
     (if path \<in> seenScript w then w
      else w\<lparr>seenScript := insert path (seenScript w), scripts := scripts w @ [path]\<rparr>)"

text \<open>The keys of \<^verbatim>\<open>deps.requires[path]\<close>, none when \<^verbatim>\<open>path\<close> is not in \<^verbatim>\<open>deps.requires\<close>.\<close>

definition requires_of :: "goog_state \<Rightarrow> string \<Rightarrow> string list" where
  "requires_of S path =
     (case map_of (requires (dependencies S)) path of None \<Rightarrow> [] | Some names \<Rightarrow> names)"

text \<open>
  \<^verbatim>\<open>visitNode\<close>, and its \<^verbatim>\<open>for (var requireName in deps.requires[path])\<close> loop as
  \<open>visitRequires\<close> on the names still to come. A throw leaves the loop and every
  enclosing call at once, with the marks written so far.
\<close>

function visitNode :: "goog_state \<Rightarrow> walk \<Rightarrow> string \<Rightarrow> completion \<times> walk"
  and visitRequires :: "goog_state \<Rightarrow> walk \<Rightarrow> string list \<Rightarrow> completion \<times> walk" where
  "visitNode S w path =
     (if path \<in> written (dependencies S) then (Normal, w)
      else if path \<in> deps_visited w then (Normal, push_script w path)
      else (case visitRequires S (w\<lparr>deps_visited := insert path (deps_visited w)\<rparr>)
                   (requires_of S path) of
              (Normal, w') \<Rightarrow> (Normal, push_script w' path)
            | (Throw e, w') \<Rightarrow> (Throw e, w')))"
| "visitRequires S w [] = (Normal, w)"
| "visitRequires S w (requireName # names) =
     (if isProvided S requireName then visitRequires S w names
      else (case map_of (nameToPath (dependencies S)) requireName of
              Some path \<Rightarrow>
                (case visitNode S w path of
                   (Normal, w') \<Rightarrow> visitRequires S w' names
                 | (Throw e, w') \<Rightarrow> (Throw e, w'))
            | None \<Rightarrow> (Throw (Error (''Undefined nameToPath for '' @ requireName)), w)))"
  by pat_completeness auto

text \<open>
  Why the walk ends: a call that passes both guards marks a path that had no mark, and
  every path a call can be made on is an owner in \<^verbatim>\<open>deps.nameToPath\<close> or the path
  the walk started from. The measure counts the paths still without a mark, then the
  names still to come in the loop.
\<close>

definition unvisited :: "goog_state \<Rightarrow> walk \<Rightarrow> string set \<Rightarrow> string set" where
  "unvisited S w extra = (extra \<union> snd ` set (nameToPath (dependencies S))) - deps_visited w"

definition visit_measure ::
    "goog_state \<times> walk \<times> string + goog_state \<times> walk \<times> string list \<Rightarrow> nat \<times> nat" where
  "visit_measure x =
     (case x of
        Inl (S, w, path) \<Rightarrow> (card (unvisited S w {path}), 0)
      | Inr (S, w, names) \<Rightarrow> (card (unvisited S w {}), Suc (length names)))"

text \<open>\<^verbatim>\<open>for (var path in goog.included_) { if (!deps.written[path]) visitNode(path); }\<close>\<close>

fun visitIncluded :: "goog_state \<Rightarrow> walk \<Rightarrow> string list \<Rightarrow> completion \<times> walk" where
  "visitIncluded S w [] = (Normal, w)"
| "visitIncluded S w (path # paths) =
     (if path \<notin> written (dependencies S)
      then (case visitNode S w path of
              (Normal, w') \<Rightarrow> visitIncluded S w' paths
            | (Throw e, w') \<Rightarrow> (Throw e, w'))
      else visitIncluded S w paths)"

text \<open>
  \<^verbatim>\<open>goog.importScript_\<close>. The import function (\<^verbatim>\<open>CLOSURE_IMPORT_SCRIPT\<close> or
  \<^verbatim>\<open>goog.writeScriptTag_\<close>) is the parameter \<open>imp\<close>: it says whether the script was
  taken; the script itself runs later and is outside the model (so is an import function
  that runs the script at once and calls back into the loader). The second component
  lists the sources handed to \<open>imp\<close> by this call: one or none.
\<close>

definition importScript :: "(string \<Rightarrow> bool) \<Rightarrow> goog_state \<Rightarrow> string \<Rightarrow> goog_state \<times> string list" where
  "importScript imp S src =
     (if src \<notin> written (dependencies S)
      then (if imp src
            then S\<lparr>dependencies := (dependencies S)\<lparr>written := insert src (written (dependencies S))\<rparr>\<rparr>
            else S, [src])
      else (S, []))"

text \<open>
  The second loop of \<^verbatim>\<open>goog.writeScripts_\<close>, over \<^verbatim>\<open>scripts\<close>; \<open>calls\<close> collects the
  sources handed to \<open>imp\<close> so far. An empty path is falsy and throws.
\<close>

fun importScripts :: "(string \<Rightarrow> bool) \<Rightarrow> goog_state \<Rightarrow> string list \<Rightarrow> string list
    \<Rightarrow> completion \<times> goog_state \<times> string list" where
  "importScripts imp S calls [] = (Normal, S, calls)"
| "importScripts imp S calls (script # rest) =
     (if script \<noteq> []
      then (case importScript imp S (basePath S @ script) of
              (S', called) \<Rightarrow> importScripts imp S' (calls @ called) rest)
      else (Throw (Error ''Undefined script input''), S, calls))"

text \<open>The state of the process once a walk has ended in \<open>w\<close>.\<close>

definition store_visited :: "goog_state \<Rightarrow> walk \<Rightarrow> goog_state" where
  "store_visited S w = S\<lparr>dependencies := (dependencies S)\<lparr>visited := deps_visited w\<rparr>\<rparr>"

text \<open>
  The variables at the start of a pass: the marks of \<^verbatim>\<open>deps.visited\<close> as earlier passes
  left them, \<^verbatim>\<open>var scripts = []\<close> and \<^verbatim>\<open>var seenScript = {}\<close>.
\<close>

definition start_walk :: "goog_state \<Rightarrow> walk" where
  "start_walk S = \<lparr>deps_visited = visited (dependencies S), seenScript = {}, scripts = []\<rparr>"

definition pass_scripts :: "goog_state \<Rightarrow> completion \<times> walk" where
  "pass_scripts S = visitIncluded S (start_walk S) (included S)"

text \<open>
  \<^verbatim>\<open>goog.writeScripts_\<close>: the walk over \<^verbatim>\<open>goog.included_\<close> (\<open>pass_scripts\<close> above), then
  the imports. The result is how the call ended, the state it left, and the sources it
  handed to \<open>imp\<close>, in order.
\<close>

definition writeScripts :: "(string \<Rightarrow> bool) \<Rightarrow> goog_state \<Rightarrow> completion \<times> goog_state \<times> string list" where
  "writeScripts imp S =
     (case pass_scripts S of
        (Normal, w) \<Rightarrow> importScripts imp (store_visited S w) [] (scripts w)
      | (Throw e, w) \<Rightarrow> (Throw e, store_visited S w, []))"

subsection \<open>\<^verbatim>\<open>goog.require\<close>\<close>

text \<open>
  \<^verbatim>\<open>if (path)\<close> also rejects an empty path. The message written to the console before
  the throw is left out.
\<close>

definition require :: "(string \<Rightarrow> bool) \<Rightarrow> goog_state \<Rightarrow> string \<Rightarrow> completion \<times> goog_state \<times> string list" where
  "require imp S name =
     (if isProvided S name then (Normal, S, [])
      else (case getPathFromDeps S name of
              Some path \<Rightarrow>
                (if path \<noteq> []
                 then writeScripts imp (S\<lparr>included := add_key path (included S)\<rparr>)
                 else (Throw (Error (''goog.require could not find: '' @ name)), S, []))
            | None \<Rightarrow> (Throw (Error (''goog.require could not find: '' @ name)), S, [])))"

section \<open>Notions used in the statements\<close>

text \<open>A name that no file provides and that is not provided on the page either.\<close>

definition unresolved :: "goog_state \<Rightarrow> string \<Rightarrow> bool" where
  "unresolved S name \<longleftrightarrow> \<not> isProvided S name \<and> getPathFromDeps S name = None"

text \<open>
  A required name is satisfied with respect to an output sequence when it is provided
  already, or when its owner has been written before or is in the sequence.
\<close>

definition satisfied :: "goog_state \<Rightarrow> string list \<Rightarrow> string \<Rightarrow> bool" where
  "satisfied S out name \<longleftrightarrow>
     isProvided S name
     \<or> (case getPathFromDeps S name of
           None \<Rightarrow> False
         | Some path \<Rightarrow> path \<in> written (dependencies S) \<or> path \<in> set out)"

text \<open>
  \<open>edge S p q\<close>: \<^verbatim>\<open>visitNode(p)\<close>, once it has passed its guards, calls
  \<^verbatim>\<open>visitNode(q)\<close>, since \<open>p\<close> requires a name that is not provided and that \<open>q\<close>
  owns. \<open>edge_list\<close> lists all such pairs and \<open>on_cycle\<close> says that a file reaches
  itself along them.
\<close>

definition edge :: "goog_state \<Rightarrow> string \<Rightarrow> string \<Rightarrow> bool" where
  "edge S p q \<longleftrightarrow>
     (\<exists>name \<in> set (requires_of S p). \<not> isProvided S name \<and> getPathFromDeps S name = Some q)"

definition edge_list :: "goog_state \<Rightarrow> (string \<times> string) list" where
  "edge_list S =
     concat (map (\<lambda>p. concat (map (\<lambda>name.
         if isProvided S name then []
         else (case getPathFromDeps S name of None \<Rightarrow> [] | Some q \<Rightarrow> [(p, q)]))
       (requires_of S p))) (map fst (requires (dependencies S))))"

definition on_cycle :: "goog_state \<Rightarrow> string \<Rightarrow> bool" where
  "on_cycle S p \<longleftrightarrow> (p, p) \<in> (set (edge_list S))\<^sup>+"

text \<open>
  The calls into files that no earlier pass has marked and that have not been written:
  files the walk enters when it comes to them.
\<close>

definition fresh_edges :: "goog_state \<Rightarrow> (string \<times> string) list" where
  "fresh_edges S =
     filter (\<lambda>(p, q). q \<notin> visited (dependencies S) \<and> q \<notin> written (dependencies S))
       (edge_list S)"

text \<open>\<open>b\<close> comes strictly before the first \<open>a\<close> of the list.\<close>

definition precedes :: "'a \<Rightarrow> 'a \<Rightarrow> 'a list \<Rightarrow> bool" where
  "precedes b a xs \<longleftrightarrow> a \<in> set xs \<and> b \<in> set (takeWhile (\<lambda>x. x \<noteq> a) xs)"

text \<open>
  What holds of the three variables of a walk between any two calls: \<^verbatim>\<open>seenScript\<close>
  holds the elements of \<^verbatim>\<open>scripts\<close>, no path is in \<^verbatim>\<open>scripts\<close> twice, and a path in
  \<^verbatim>\<open>scripts\<close> is marked in \<^verbatim>\<open>deps.visited\<close> and not in \<^verbatim>\<open>deps.written\<close>.
\<close>

definition walk_inv :: "goog_state \<Rightarrow> walk \<Rightarrow> bool" where
  "walk_inv S w \<longleftrightarrow>
     seenScript w = set (scripts w) \<and> distinct (scripts w)
     \<and> set (scripts w) \<subseteq> deps_visited w
     \<and> set (scripts w) \<inter> written (dependencies S) = {}"

text \<open>A later state of the same walk: more marks, and \<^verbatim>\<open>scripts\<close> extended at its end.\<close>

definition walk_le :: "walk \<Rightarrow> walk \<Rightarrow> bool" where
  "walk_le w w' \<longleftrightarrow> deps_visited w \<subseteq> deps_visited w' \<and> prefix (scripts w) (scripts w')"

text \<open>
  Between \<open>w\<close> and \<open>w'\<close> every newly marked path has been pushed, with each of its
  requirements satisfied.
\<close>

definition settled :: "goog_state \<Rightarrow> walk \<Rightarrow> walk \<Rightarrow> bool" where
  "settled S w w' \<longleftrightarrow>
     (\<forall>path \<in> deps_visited w' - deps_visited w.
        path \<in> set (scripts w')
        \<and> (\<forall>name \<in> set (requires_of S path). satisfied S (scripts w') name))"

text \<open>
  Between \<open>w\<close> and \<open>w'\<close> every newly pushed path that had no mark in \<open>w\<close> and lies
  on no cycle comes after the owners of its requirements.
\<close>

definition ordered :: "goog_state \<Rightarrow> walk \<Rightarrow> walk \<Rightarrow> bool" where
  "ordered S w w' \<longleftrightarrow>
     (\<forall>A name B. A \<in> set (scripts w') \<and> A \<notin> set (scripts w) \<and> A \<notin> deps_visited w
        \<and> \<not> on_cycle S A \<and> name \<in> set (requires_of S A) \<and> \<not> isProvided S name
        \<and> getPathFromDeps S name = Some B \<and> B \<notin> written (dependencies S)
        \<longrightarrow> precedes B A (scripts w'))"

text \<open>The state with \<^verbatim>\<open>deps.written\<close> replaced.\<close>

definition set_written :: "goog_state \<Rightarrow> string set \<Rightarrow> goog_state" where
  "set_written S W = S\<lparr>dependencies := (dependencies S)\<lparr>written := W\<rparr>\<rparr>"

subsection \<open>Names that stay within own properties\<close>








text \<open>
  What a sequence of parts evaluates to from a value, one property read after the other
  with no test in between; everything below undefined or null is undefined.
\<close>

definition value_at :: "string list \<Rightarrow> jsval \<Rightarrow> jsval" where
  "value_at parts cur = foldl get_prop cur parts"

section \<open>Registries used as examples\<close>

text \<open>
  The state right after \<^verbatim>\<open>base.js\<close> has set up its empty tables, with nothing declared
  and nothing registered; what the page and \<^verbatim>\<open>base.js\<close> itself have put on the global
  object is left out.
\<close>

definition fresh :: goog_state where
  "fresh =
     \<lparr>global = Obj [], implicitNamespaces = {}, included = [],
      dependencies =
        \<lparr>pathToNames = [], nameToPath = [], requires = [], visited = {}, written = {}\<rparr>,
      basePath = []\<rparr>"




text \<open>The three files of the chain \<^verbatim>\<open>m3\<close> \<open>\<rightarrow>\<close> \<^verbatim>\<open>m2\<close> \<open>\<rightarrow>\<close> \<^verbatim>\<open>m1\<close>, registered in that order.\<close>

definition chain_page :: goog_state where
  "chain_page =
     addDependency (addDependency (addDependency fresh ''m1'' [''x''] []) ''m2'' [''y''] [''x''])
       ''m3'' [''z''] [''y'']"

text \<open>
  \<^verbatim>\<open>a.js\<close> requires \<^verbatim>\<open>d\<close> and \<^verbatim>\<open>b\<close>; \<^verbatim>\<open>d.js\<close> requires \<^verbatim>\<open>a\<close> back; \<^verbatim>\<open>b.js\<close>
  requires nothing.
\<close>

definition side_cycle_page :: goog_state where
  "side_cycle_page =
     addDependency (addDependency (addDependency fresh ''a.js'' [''a''] [''d'', ''b''])
       ''d.js'' [''d''] [''a'']) ''b.js'' [''b''] []"

text \<open>\<^verbatim>\<open>a.js\<close> and \<^verbatim>\<open>b.js\<close> require each other.\<close>

definition cycle_page :: goog_state where
  "cycle_page =
     addDependency (addDependency fresh ''a.js'' [''a''] [''b'']) ''b.js'' [''b''] [''a'']"


section \<open>Termination\<close>

lemma length_parent_namespace:
  "parent_namespace namespace \<noteq> [] \<Longrightarrow> length (parent_namespace namespace) < length namespace"
proof -
  assume "parent_namespace namespace \<noteq> []"
  then have dot: "CHR ''.'' \<in> set (rev namespace)"
    by (auto simp: parent_namespace_def split: if_splits)
  then have "dropWhile (\<lambda>c. c \<noteq> CHR ''.'') (rev namespace) \<noteq> []"
    by (simp add: dropWhile_eq_Nil_conv)
  then have "length (tl (dropWhile (\<lambda>c. c \<noteq> CHR ''.'') (rev namespace)))
      < length (dropWhile (\<lambda>c. c \<noteq> CHR ''.'') (rev namespace))"
    by (cases "dropWhile (\<lambda>c. c \<noteq> CHR ''.'') (rev namespace)") simp_all
  also have "\<dots> \<le> length (rev namespace)"
    by (rule length_dropWhile_le)
  finally show ?thesis
    using dot by (simp add: parent_namespace_def)
qed

termination provide_loop
  by (relation "measure (\<lambda>(g, implicit, namespace). length namespace)")
     (auto simp: length_parent_namespace)

lemma push_script_visited [simp]: "deps_visited (push_script w path) = deps_visited w"
  by (simp add: push_script_def)

lemma visit_visited_mono_dom:
  "visitNode_visitRequires_dom (Inl (S, w, path)) \<Longrightarrow>
     deps_visited w \<subseteq> deps_visited (snd (visitNode S w path))"
  "visitNode_visitRequires_dom (Inr (S, w, names)) \<Longrightarrow>
     deps_visited w \<subseteq> deps_visited (snd (visitRequires S w names))"
proof (induct rule: visitNode_visitRequires.pinduct)
  case (1 S w path)
  then show ?case
    by (auto simp: visitNode.psimps split: prod.splits completion.splits)
next
  case (2 S w)
  then show ?case by (simp add: visitRequires.psimps)
next
  case (3 S w requireName names)
  then show ?case
    by (fastforce simp: visitRequires.psimps split: prod.splits completion.splits option.splits)
qed

lemma finite_unvisited [simp]: "finite extra \<Longrightarrow> finite (unvisited S w extra)"
  by (simp add: unvisited_def)

lemma unvisited_enter:
  "path \<notin> deps_visited w \<Longrightarrow>
   card (unvisited S (w\<lparr>deps_visited := insert path (deps_visited w)\<rparr>) {})
     < card (unvisited S w {path})"
proof -
  assume "path \<notin> deps_visited w"
  then have "unvisited S (w\<lparr>deps_visited := insert path (deps_visited w)\<rparr>) {}
      \<subset> unvisited S w {path}"
    by (auto simp: unvisited_def)
  then show ?thesis
    by (intro psubset_card_mono) simp_all
qed

lemma unvisited_owner:
  "map_of (nameToPath (dependencies S)) requireName = Some path \<Longrightarrow>
   unvisited S w {path} = unvisited S w {}"
  by (auto simp: unvisited_def dest!: map_of_SomeD intro: rev_image_eqI)

lemma unvisited_mono:
  "deps_visited w \<subseteq> deps_visited w' \<Longrightarrow> card (unvisited S w' {}) \<le> card (unvisited S w {})"
  by (intro card_mono) (auto simp: unvisited_def)

termination visitNode
proof (relation "inv_image (less_than <*lex*> less_than) visit_measure")
  show "wf (inv_image (less_than <*lex*> less_than) visit_measure)"
    by (intro wf_inv_image wf_lex_prod wf_less_than)
next
  fix S :: goog_state and w :: walk and path :: string
  assume "path \<notin> written (dependencies S)" "path \<notin> deps_visited w"
  then show "(Inr (S, w\<lparr>deps_visited := insert path (deps_visited w)\<rparr>, requires_of S path),
        Inl (S, w, path)) \<in> inv_image (less_than <*lex*> less_than) visit_measure"
    by (simp add: visit_measure_def unvisited_enter)
next
  fix S :: goog_state and w :: walk and requireName :: string and names :: "string list"
  show "(Inr (S, w, names), Inr (S, w, requireName # names))
      \<in> inv_image (less_than <*lex*> less_than) visit_measure"
    by (simp add: visit_measure_def)
next
  fix S :: goog_state and w :: walk and requireName :: string and names :: "string list"
    and path :: string
  assume "map_of (nameToPath (dependencies S)) requireName = Some path"
  then show "(Inl (S, w, path), Inr (S, w, requireName # names))
      \<in> inv_image (less_than <*lex*> less_than) visit_measure"
    by (simp add: visit_measure_def unvisited_owner)
next
  fix S :: goog_state and w w' :: walk and requireName :: string and names :: "string list"
    and path :: string and c :: completion
  assume "(c, w') = visitNode S w path"
    and "visitNode_visitRequires_dom (Inl (S, w, path))"
  then have "deps_visited w \<subseteq> deps_visited w'"
    using visit_visited_mono_dom(1) [of S w path] by (metis snd_conv)
  then have "card (unvisited S w' {}) \<le> card (unvisited S w {})"
    by (rule unvisited_mono)
  then show "(Inr (S, w', names), Inr (S, w, requireName # names))
      \<in> inv_image (less_than <*lex*> less_than) visit_measure"
    by (auto simp: visit_measure_def)
qed

declare provide_loop.simps [simp del]
declare visitNode.simps [simp del]
declare visitRequires.simps [simp del]

section \<open>The namespace registry\<close>

subsection \<open>Names that do not resolve\<close>



lemma value_at_Cons: "value_at (part # parts) cur = value_at parts (get_prop cur part)"
  by (simp add: value_at_def)


text \<open>
  The other way round: when no part is empty and every part reads as a value that is
  neither undefined nor null, the lookup returns what the parts evaluate to.
\<close>

lemma getObjectByName_loop_resolves:
  "list_all (\<lambda>part. part \<noteq> []) parts \<Longrightarrow>
   \<forall>k < length parts. isDefAndNotNull (value_at (take (Suc k) parts) cur) \<Longrightarrow>
   getObjectByName_loop parts cur = value_at parts cur"
proof (induction parts arbitrary: cur)
  case Nil
  then show ?case by (simp add: value_at_def)
next
  case (Cons part parts)
  from Cons.prems(2) have "isDefAndNotNull (value_at (take (Suc 0) (part # parts)) cur)"
    by blast
  then have d: "isDefAndNotNull (get_prop cur part)"
    by (simp add: value_at_def)
  have "\<forall>k < length parts. isDefAndNotNull (value_at (take (Suc k) parts) (get_prop cur part))"
  proof (intro allI impI)
    fix k assume "k < length parts"
    then have "Suc k < length (part # parts)"
      by simp
    with Cons.prems(2) have "isDefAndNotNull (value_at (take (Suc (Suc k)) (part # parts)) cur)"
      by blast
    then show "isDefAndNotNull (value_at (take (Suc k) parts) (get_prop cur part))"
      by (simp add: value_at_Cons)
  qed
  with Cons.IH [of "get_prop cur part"] Cons.prems(1) d show ?case
    by (simp add: value_at_Cons)
qed




subsection \<open>Declaring \<^verbatim>\<open>a.b.c\<close>\<close>

lemma split_abc:
  "split (CHR ''.'') ''a.b.c'' = [''a'', ''b'', ''c'']"
  "split (CHR ''.'') ''a.b'' = [''a'', ''b'']"
  "split (CHR ''.'') ''a'' = [''a'']"
  by simp_all

lemma parent_abc:
  "parent_namespace ''a.b.c'' = ''a.b''"
  "parent_namespace ''a.b'' = ''a''"
  "parent_namespace ''a'' = []"
  by (simp_all add: parent_namespace_def)

lemma falsy_has_no_property: "\<not> truthy v \<Longrightarrow> get_prop v part = Undefined"
  by (cases v) simp_all

lemma provide_loop_abc:
  assumes "getObjectByName ''a.b'' g = Null" "\<not> truthy (getObjectByName ''a'' g)"
  shows "provide_loop g I ''a.b.c'' = insert ''a'' (insert ''a.b'' I)"
proof -
  have "provide_loop g I ''a.b.c'' = provide_loop g (insert ''a.b'' I) ''a.b''"
    using assms by (subst provide_loop.simps) (simp add: parent_abc)
  also have "\<dots> = provide_loop g (insert ''a'' (insert ''a.b'' I)) ''a''"
    using assms by (subst provide_loop.simps) (simp add: parent_abc)
  also have "\<dots> = insert ''a'' (insert ''a.b'' I)"
    by (subst provide_loop.simps) (simp add: parent_abc)
  finally show ?thesis .
qed

text \<open>
  Claim C4. On a registry in which \<^verbatim>\<open>a\<close> holds nothing (no value, or a falsy one), so
  that neither \<^verbatim>\<open>a\<close> nor \<^verbatim>\<open>a.b\<close> has been declared, \<^verbatim>\<open>goog.provide('a.b.c')\<close> returns
  normally; afterwards \<^verbatim>\<open>a\<close>, \<^verbatim>\<open>a.b\<close> and \<^verbatim>\<open>a.b.c\<close> resolve to container objects,
  \<^verbatim>\<open>a\<close> and \<^verbatim>\<open>a.b\<close> are in \<^verbatim>\<open>goog.implicitNamespaces_\<close>, \<^verbatim>\<open>goog.isProvided_('a')\<close> is
  false and \<^verbatim>\<open>goog.isProvided_('a.b.c')\<close> is true.
\<close>

theorem provide_abc:
  assumes g: "global S = Obj props" and a: "\<not> truthy (get_prop (global S) ''a'')"
  shows "\<exists>S'. provide S ''a.b.c'' = (Normal, S')
    \<and> getObjectByName ''a'' (global S') = Obj [(''b'', Obj [(''c'', Obj [])])]
    \<and> getObjectByName ''a.b'' (global S') = Obj [(''c'', Obj [])]
    \<and> getObjectByName ''a.b.c'' (global S') = Obj []
    \<and> ''a'' \<in> implicitNamespaces S' \<and> ''a.b'' \<in> implicitNamespaces S'
    \<and> isProvided S' ''a'' = False \<and> isProvided S' ''a.b.c'' = True"
proof -
  let ?a = "get_prop (Obj props) ''a''"
  have u: "get_prop ?a part = Undefined" for part
    using a g by (simp add: falsy_has_no_property)
  have n: "\<not> truthy ?a"
    using a g by simp
  have l1: "getObjectByName ''a.b.c'' (global S) = Null"
    using u [of "''b''"] by (simp add: getObjectByName_def g split_abc)
  have l2: "getObjectByName ''a.b'' (global S) = Null"
    using u [of "''b''"] by (simp add: getObjectByName_def g split_abc)
  have l3: "\<not> truthy (getObjectByName ''a'' (global S))"
    using n by (simp add: getObjectByName_def g split_abc)
  have np: "\<not> isProvided S ''a.b.c''"
    by (simp add: isProvided_def l1)
  have ex: "exportPath ''a.b.c'' Undefined (global S)
      = Obj (AList.update ''a'' (Obj [(''b'', Obj [(''c'', Obj [])])]) props)"
    using n by (simp add: exportPath_def g split_abc)
  have m: "map_of (AList.update ''a'' v props) ''a'' = Some v" for v :: jsval
    by (simp add: update_conv')
  show ?thesis
    using np
    by (simp add: provide_def provide_loop_abc [OF l2 l3] ex isProvided_def
        getObjectByName_def split_abc m)
qed

theorem provide_abc_witness:
  "\<exists>S'. provide fresh ''a.b.c'' = (Normal, S')
    \<and> getObjectByName ''a'' (global S') = Obj [(''b'', Obj [(''c'', Obj [])])]
    \<and> getObjectByName ''a.b'' (global S') = Obj [(''c'', Obj [])]
    \<and> getObjectByName ''a.b.c'' (global S') = Obj []
    \<and> ''a'' \<in> implicitNamespaces S' \<and> ''a.b'' \<in> implicitNamespaces S'
    \<and> isProvided S' ''a'' = False \<and> isProvided S' ''a.b.c'' = True"
  using provide_abc [of fresh "[]"] by (simp add: fresh_def)

subsection \<open>Declaring a name again\<close>











lemma primitive_has_no_property: "\<not> is_container cur \<Longrightarrow> get_prop cur part = Undefined"
  by (cases cur) simp_all








section \<open>The loader\<close>

subsection \<open>A name that is already provided\<close>

text \<open>A page on which \<^verbatim>\<open>a\<close> is a container that nothing marked implicit.\<close>

lemma isProvided_example: "isProvided (fresh\<lparr>global := Obj [(''a'', Obj [])]\<rparr>) ''a''"
  by (simp add: isProvided_def getObjectByName_def fresh_def)

text \<open>
  Claim C5. When \<^verbatim>\<open>goog.isProvided_(name)\<close> holds, \<^verbatim>\<open>goog.require(name)\<close> returns at
  once: it ends normally, leaves the whole state as it was and hands nothing to the
  import function.
\<close>

theorem require_provided_is_noop:
  "isProvided S name \<Longrightarrow> require imp S name = (Normal, S, [])"
  by (simp add: require_def)

theorem require_provided_is_noop_witness:
  "require (\<lambda>src. True) (fresh\<lparr>global := Obj [(''a'', Obj [])]\<rparr>) ''a''
     = (Normal, fresh\<lparr>global := Obj [(''a'', Obj [])]\<rparr>, [])"
  using require_provided_is_noop [OF isProvided_example] .

subsection \<open>Two files that provide the same name\<close>






section \<open>The walk of one pass\<close>

subsection \<open>The variables of the walk\<close>

lemma walk_le_refl [simp]: "walk_le w w"
  by (simp add: walk_le_def)

lemma walk_le_trans: "walk_le w w1 \<Longrightarrow> walk_le w1 w2 \<Longrightarrow> walk_le w w2"
  by (auto simp: walk_le_def)

lemma walk_le_push: "walk_le w (push_script w path)"
  by (simp add: walk_le_def push_script_def)

lemma walk_le_mark: "walk_le w (w\<lparr>deps_visited := insert path (deps_visited w)\<rparr>)"
  by (auto simp: walk_le_def)

lemma walk_le_unmark:
  "walk_le (w\<lparr>deps_visited := insert path (deps_visited w)\<rparr>) w1 \<Longrightarrow> walk_le w w1"
  by (auto simp: walk_le_def)

lemma walk_le_then_push: "walk_le w w1 \<Longrightarrow> walk_le w (push_script w1 path)"
  by (auto simp: walk_le_def push_script_def)

lemma walk_le_scripts: "walk_le w w' \<Longrightarrow> set (scripts w) \<subseteq> set (scripts w')"
  by (auto simp: walk_le_def prefix_def)

lemma walk_le_prefix: "walk_le w w' \<Longrightarrow> prefix (scripts w) (scripts w')"
  by (simp add: walk_le_def)

lemma walk_inv_push:
  "walk_inv S w \<Longrightarrow> path \<in> deps_visited w \<Longrightarrow> path \<notin> written (dependencies S) \<Longrightarrow>
   walk_inv S (push_script w path)"
  by (auto simp: walk_inv_def push_script_def)

lemma walk_inv_mark:
  "walk_inv S w \<Longrightarrow> walk_inv S (w\<lparr>deps_visited := insert path (deps_visited w)\<rparr>)"
  by (auto simp: walk_inv_def)

lemma walk_inv_start: "walk_inv S (start_walk S)"
  by (simp add: walk_inv_def start_walk_def)

lemma push_script_seen: "path \<in> seenScript (push_script w path)"
  by (simp add: push_script_def)

text \<open>The ways a call of \<^verbatim>\<open>visitNode\<close> and a round of its loop can go.\<close>

lemma visitNode_cases:
  assumes "visitNode S w path = (c, w')"
  obtains (written) "path \<in> written (dependencies S)" "c = Normal" "w' = w"
  | (visited) "path \<notin> written (dependencies S)" "path \<in> deps_visited w"
      "c = Normal" "w' = push_script w path"
  | (entered) w1 where "path \<notin> written (dependencies S)" "path \<notin> deps_visited w"
      "visitRequires S (w\<lparr>deps_visited := insert path (deps_visited w)\<rparr>) (requires_of S path)
         = (Normal, w1)"
      "c = Normal" "w' = push_script w1 path"
  | (thrown) e where "path \<notin> written (dependencies S)" "path \<notin> deps_visited w"
      "visitRequires S (w\<lparr>deps_visited := insert path (deps_visited w)\<rparr>) (requires_of S path)
         = (Throw e, w')"
      "c = Throw e"
  using assms
  by (subst (asm) visitNode.simps) (auto split: if_splits prod.splits completion.splits)

lemma visitRequires_cases:
  assumes "visitRequires S w (requireName # names) = (c, w')"
  obtains (provided) "isProvided S requireName" "visitRequires S w names = (c, w')"
  | (unowned) "\<not> isProvided S requireName" "getPathFromDeps S requireName = None"
      "c = Throw (Error (''Undefined nameToPath for '' @ requireName))" "w' = w"
  | (visit) path w1 where "\<not> isProvided S requireName"
      "getPathFromDeps S requireName = Some path"
      "visitNode S w path = (Normal, w1)" "visitRequires S w1 names = (c, w')"
  | (thrown) path e where "\<not> isProvided S requireName"
      "getPathFromDeps S requireName = Some path"
      "visitNode S w path = (Throw e, w')" "c = Throw e"
  using assms
  by (subst (asm) visitRequires.simps)
     (auto simp: getPathFromDeps_def split: if_splits prod.splits completion.splits option.splits)

lemma visit_walk_inv:
  "walk_inv S w \<Longrightarrow> visitNode S w path = (c, w') \<Longrightarrow> walk_inv S w' \<and> walk_le w w'"
  "walk_inv S w \<Longrightarrow> visitRequires S w names = (c, w') \<Longrightarrow> walk_inv S w' \<and> walk_le w w'"
proof (induction S w path and S w names arbitrary: c w' and c w' rule: visitNode_visitRequires.induct)
  case (1 S w path)
  from "1.prems"(2) show ?case
  proof (cases rule: visitNode_cases)
    case written
    with "1.prems" show ?thesis by simp
  next
    case visited
    with "1.prems" show ?thesis by (simp add: walk_inv_push walk_le_push)
  next
    case (entered w1)
    let ?w = "w\<lparr>deps_visited := insert path (deps_visited w)\<rparr>"
    have "walk_inv S w1 \<and> walk_le ?w w1"
      using "1.IH" entered "1.prems"(1) by (simp add: walk_inv_mark)
    moreover from this have "path \<in> deps_visited w1"
      by (auto simp: walk_le_def)
    ultimately show ?thesis
      using entered by (auto simp: walk_inv_push intro: walk_le_then_push dest: walk_le_unmark)
  next
    case (thrown e)
    let ?w = "w\<lparr>deps_visited := insert path (deps_visited w)\<rparr>"
    have "walk_inv S w' \<and> walk_le ?w w'"
      using "1.IH" thrown "1.prems"(1) by (simp add: walk_inv_mark)
    then show ?thesis
      by (auto dest: walk_le_unmark)
  qed
next
  case (2 S w)
  then show ?case by (simp add: visitRequires.simps)
next
  case (3 S w requireName names)
  from "3.prems"(2) show ?case
  proof (cases rule: visitRequires_cases)
    case provided
    with "3.IH"(1) "3.prems"(1) show ?thesis by simp
  next
    case unowned
    with "3.prems" show ?thesis by simp
  next
    case (visit path w1)
    then have a: "walk_inv S w1 \<and> walk_le w w1"
      using "3.IH"(2) "3.prems"(1) by (simp add: getPathFromDeps_def)
    then have "walk_inv S w' \<and> walk_le w1 w'"
      using "3.IH"(3) [of path Normal w1] visit by (simp add: getPathFromDeps_def)
    with a show ?thesis
      by (auto intro: walk_le_trans)
  next
    case (thrown path e)
    then show ?thesis
      using "3.IH"(2) "3.prems"(1) by (simp add: getPathFromDeps_def)
  qed
qed

subsection \<open>What a completed call has emitted\<close>

lemma satisfied_mono: "satisfied S out name \<Longrightarrow> set out \<subseteq> set out' \<Longrightarrow> satisfied S out' name"
  by (auto simp: satisfied_def split: option.splits)

lemma visitNode_emits:
  assumes "walk_inv S w" and "visitNode S w path = (Normal, w')"
  shows "path \<in> written (dependencies S) \<or> path \<in> set (scripts w')"
proof -
  from assms have inv: "walk_inv S w'"
    using visit_walk_inv(1) by blast
  from assms(2) have "path \<in> written (dependencies S) \<or> path \<in> seenScript w'"
    by (cases rule: visitNode_cases) (simp_all add: push_script_seen)
  with inv show ?thesis
    by (simp add: walk_inv_def)
qed

lemma visitRequires_satisfies:
  "walk_inv S w \<Longrightarrow> visitRequires S w names = (Normal, w') \<Longrightarrow>
   \<forall>name \<in> set names. satisfied S (scripts w') name"
proof (induction names arbitrary: w)
  case Nil
  then show ?case by simp
next
  case (Cons requireName names)
  from Cons.prems(2) show ?case
  proof (cases rule: visitRequires_cases)
    case provided
    then show ?thesis
      using Cons.IH [OF Cons.prems(1)] by (simp add: satisfied_def)
  next
    case (visit path w1)
    have inv1: "walk_inv S w1"
      using visit_walk_inv(1) [OF Cons.prems(1) visit(3)] by simp
    have le: "walk_le w1 w'"
      using visit_walk_inv(2) [OF inv1 visit(4)] by simp
    have "path \<in> written (dependencies S) \<or> path \<in> set (scripts w1)"
      using visitNode_emits [OF Cons.prems(1) visit(3)] .
    then have "satisfied S (scripts w') requireName"
      using visit(2) walk_le_scripts [OF le] by (auto simp: satisfied_def)
    then show ?thesis
      using Cons.IH [OF inv1 visit(4)] by simp
  qed simp_all
qed

lemma settled_refl [simp]: "settled S w w"
  by (simp add: settled_def)

lemma settledD:
  "settled S w w' \<Longrightarrow> x \<in> deps_visited w' \<Longrightarrow> x \<notin> deps_visited w \<Longrightarrow>
   x \<in> set (scripts w') \<and> (\<forall>name\<in>set (requires_of S x). satisfied S (scripts w') name)"
  by (auto simp: settled_def)

lemma settled_trans:
  assumes "settled S w w1" and "settled S w1 w2" and "walk_le w1 w2"
  shows "settled S w w2"
  unfolding settled_def
proof
  fix x
  assume x: "x \<in> deps_visited w2 - deps_visited w"
  have sub: "set (scripts w1) \<subseteq> set (scripts w2)"
    using assms(3) by (rule walk_le_scripts)
  show "x \<in> set (scripts w2) \<and> (\<forall>name\<in>set (requires_of S x). satisfied S (scripts w2) name)"
  proof (cases "x \<in> deps_visited w1")
    case True
    with x have "x \<in> deps_visited w1" "x \<notin> deps_visited w"
      by simp_all
    from settledD [OF assms(1) this]
    have "x \<in> set (scripts w1) \<and> (\<forall>name\<in>set (requires_of S x). satisfied S (scripts w1) name)" .
    with sub show ?thesis
      by (auto intro: satisfied_mono)
  next
    case False
    with x have "x \<in> deps_visited w2" "x \<notin> deps_visited w1"
      by simp_all
    from settledD [OF assms(2) this] show ?thesis .
  qed
qed

lemma visit_settles:
  "walk_inv S w \<Longrightarrow> visitNode S w path = (Normal, w') \<Longrightarrow> settled S w w'"
  "walk_inv S w \<Longrightarrow> visitRequires S w names = (Normal, w') \<Longrightarrow> settled S w w'"
proof (induction S w path and S w names arbitrary: w' and w' rule: visitNode_visitRequires.induct)
  case (1 S w path)
  from "1.prems"(2) show ?case
  proof (cases rule: visitNode_cases)
    case written
    then show ?thesis by simp
  next
    case visited
    then show ?thesis by (simp add: settled_def)
  next
    case (entered w1)
    let ?w = "w\<lparr>deps_visited := insert path (deps_visited w)\<rparr>"
    have inv: "walk_inv S ?w"
      using "1.prems"(1) by (rule walk_inv_mark)
    have s: "settled S ?w w1"
      using "1.IH" entered inv by simp
    have sat: "\<forall>name \<in> set (requires_of S path). satisfied S (scripts w1) name"
      using visitRequires_satisfies [OF inv entered(3)] .
    have sub: "set (scripts w1) \<subseteq> set (scripts w')"
      using entered(5) by (auto simp: push_script_def)
    have inv': "walk_inv S w'"
      using visit_walk_inv(1) [OF "1.prems"] by simp
    have p: "path \<in> set (scripts w')"
      using inv' entered(5) push_script_seen [of path w1] by (simp add: walk_inv_def)
    have v: "deps_visited w' = deps_visited w1"
      using entered(5) by simp
    show ?thesis
      unfolding settled_def
    proof
      fix x
      assume x: "x \<in> deps_visited w' - deps_visited w"
      show "x \<in> set (scripts w') \<and> (\<forall>name\<in>set (requires_of S x). satisfied S (scripts w') name)"
      proof (cases "x = path")
        case True
        with p sat sub show ?thesis
          by (auto intro: satisfied_mono)
      next
        case False
        with x v have "x \<in> deps_visited w1" "x \<notin> deps_visited ?w"
          by simp_all
        from settledD [OF s this]
        have "x \<in> set (scripts w1) \<and> (\<forall>name\<in>set (requires_of S x). satisfied S (scripts w1) name)" .
        with sub show ?thesis
          by (auto intro: satisfied_mono)
      qed
    qed
  qed simp
next
  case (2 S w)
  then show ?case by (simp add: visitRequires.simps)
next
  case (3 S w requireName names)
  from "3.prems"(2) show ?case
  proof (cases rule: visitRequires_cases)
    case provided
    with "3.IH"(1) "3.prems"(1) show ?thesis by simp
  next
    case (visit path w1)
    have s1: "settled S w w1"
      using "3.IH"(2) visit "3.prems"(1) by (simp add: getPathFromDeps_def)
    have inv1: "walk_inv S w1"
      using visit_walk_inv(1) [OF "3.prems"(1) visit(3)] by simp
    have s2: "settled S w1 w'"
      using "3.IH"(3) [of path Normal w1] visit inv1 by (simp add: getPathFromDeps_def)
    have "walk_le w1 w'"
      using visit_walk_inv(2) [OF inv1 visit(4)] by simp
    with s1 s2 show ?thesis
      by (rule settled_trans)
  qed simp_all
qed

subsection \<open>The only throw of the walk\<close>

lemma visit_throws_unresolved:
  "walk_inv S w \<Longrightarrow> visitNode S w path = (Throw e, w') \<Longrightarrow>
     \<exists>p name. p \<in> deps_visited w' \<and> p \<notin> deps_visited w \<and> name \<in> set (requires_of S p)
        \<and> unresolved S name \<and> e = Error (''Undefined nameToPath for '' @ name)"
  "walk_inv S w \<Longrightarrow> visitRequires S w names = (Throw e, w') \<Longrightarrow>
     \<exists>name. unresolved S name \<and> e = Error (''Undefined nameToPath for '' @ name)
        \<and> (name \<in> set names
            \<or> (\<exists>p. p \<in> deps_visited w' \<and> p \<notin> deps_visited w \<and> name \<in> set (requires_of S p)))"
proof (induction S w path and S w names arbitrary: w' and w' rule: visitNode_visitRequires.induct)
  case (1 S w path)
  from "1.prems"(2) show ?case
  proof (cases rule: visitNode_cases)
    case (thrown e')
    let ?w = "w\<lparr>deps_visited := insert path (deps_visited w)\<rparr>"
    have inv: "walk_inv S ?w"
      using "1.prems"(1) by (rule walk_inv_mark)
    have r: "visitRequires S ?w (requires_of S path) = (Throw e, w')"
      using thrown(3,4) by simp
    have "walk_le ?w w'"
      using visit_walk_inv(2) [OF inv r] by simp
    then have path: "path \<in> deps_visited w'"
      by (auto simp: walk_le_def)
    from "1.IH" [OF thrown(1,2) inv r]
    obtain name where name: "unresolved S name" "e = Error (''Undefined nameToPath for '' @ name)"
      "name \<in> set (requires_of S path)
       \<or> (\<exists>p. p \<in> deps_visited w' \<and> p \<notin> deps_visited ?w \<and> name \<in> set (requires_of S p))"
      by auto
    from name(3) have "\<exists>p. p \<in> deps_visited w' \<and> p \<notin> deps_visited w \<and> name \<in> set (requires_of S p)"
      using path thrown(2) by auto
    with name(1,2) show ?thesis
      by blast
  qed simp_all
next
  case (2 S w)
  then show ?case by (simp add: visitRequires.simps)
next
  case (3 S w requireName names)
  from "3.prems"(2) show ?case
  proof (cases rule: visitRequires_cases)
    case provided
    with "3.IH"(1) "3.prems"(1) show ?thesis by auto
  next
    case unowned
    then show ?thesis by (auto simp: unresolved_def)
  next
    case (visit path w1)
    have inv1: "walk_inv S w1" and le1: "walk_le w w1"
      using visit_walk_inv(1) [OF "3.prems"(1) visit(3)] by simp_all
    from "3.IH"(3) [of path Normal w1] visit inv1
    obtain name where name: "unresolved S name" "e = Error (''Undefined nameToPath for '' @ name)"
      "name \<in> set names
       \<or> (\<exists>p. p \<in> deps_visited w' \<and> p \<notin> deps_visited w1 \<and> name \<in> set (requires_of S p))"
      by (auto simp: getPathFromDeps_def)
    from name(3) le1 have "name \<in> set (requireName # names)
       \<or> (\<exists>p. p \<in> deps_visited w' \<and> p \<notin> deps_visited w \<and> name \<in> set (requires_of S p))"
      by (auto simp: walk_le_def)
    with name(1,2) show ?thesis
      by blast
  next
    case (thrown path e')
    with "3.IH"(2) [of path w'] "3.prems"(1) show ?thesis
      by (auto simp: getPathFromDeps_def)
  qed
qed

subsection \<open>Order of the output\<close>

lemma edge_iff:
  "edge S p q \<longleftrightarrow> (p, q) \<in> set (edge_list S)"
proof
  assume "edge S p q"
  then obtain name where n: "name \<in> set (requires_of S p)" "\<not> isProvided S name"
      "getPathFromDeps S name = Some q"
    by (auto simp: edge_def)
  from n(1) obtain names where "map_of (requires (dependencies S)) p = Some names"
    by (cases "map_of (requires (dependencies S)) p") (auto simp: requires_of_def)
  then have "(p, names) \<in> set (requires (dependencies S))"
    by (rule map_of_SomeD)
  then have "p \<in> fst ` set (requires (dependencies S))"
    by (rule rev_image_eqI) simp
  with n show "(p, q) \<in> set (edge_list S)"
    by (force simp: edge_list_def)
next
  assume "(p, q) \<in> set (edge_list S)"
  then show "edge S p q"
    by (auto simp: edge_list_def edge_def split: if_splits option.splits)
qed

lemma visit_emits_reachable:
  "visitNode S w path = (c, w') \<Longrightarrow> x \<in> set (scripts w') \<Longrightarrow> x \<notin> set (scripts w) \<Longrightarrow>
     (path, x) \<in> (set (edge_list S))\<^sup>*"
  "visitRequires S w names = (c, w') \<Longrightarrow> x \<in> set (scripts w') \<Longrightarrow> x \<notin> set (scripts w) \<Longrightarrow>
     \<exists>name \<in> set names. \<exists>q. \<not> isProvided S name \<and> getPathFromDeps S name = Some q
        \<and> (q, x) \<in> (set (edge_list S))\<^sup>*"
proof (induction S w path and S w names arbitrary: c w' and c w' rule: visitNode_visitRequires.induct)
  case (1 S w path)
  let ?w = "w\<lparr>deps_visited := insert path (deps_visited w)\<rparr>"
  have step: "(path, x) \<in> (set (edge_list S))\<^sup>*"
    if "visitRequires S ?w (requires_of S path) = (c', w1)" "x \<in> set (scripts w1)"
      "path \<notin> written (dependencies S)" "path \<notin> deps_visited w" for c' w1
  proof -
    from "1.IH" [OF that(3,4,1,2)] "1.prems"(3)
    obtain name q where "name \<in> set (requires_of S path)" "\<not> isProvided S name"
        "getPathFromDeps S name = Some q" "(q, x) \<in> (set (edge_list S))\<^sup>*"
      by auto
    then have "edge S path q" by (auto simp: edge_def)
    then have "(path, q) \<in> set (edge_list S)" by (simp add: edge_iff)
    then show ?thesis
      using \<open>(q, x) \<in> (set (edge_list S))\<^sup>*\<close> by (rule converse_rtrancl_into_rtrancl)
  qed
  from "1.prems"(1) show ?case
  proof (cases rule: visitNode_cases)
    case written
    with "1.prems" show ?thesis by simp
  next
    case visited
    with "1.prems" show ?thesis by (auto simp: push_script_def split: if_splits)
  next
    case (entered w1)
    show ?thesis
    proof (cases "x = path")
      case True
      then show ?thesis by simp
    next
      case False
      with entered "1.prems"(2) have "x \<in> set (scripts w1)"
        by (auto simp: push_script_def split: if_splits)
      with entered show ?thesis by (intro step)
    qed
  next
    case (thrown e)
    with "1.prems"(2) show ?thesis by (intro step)
  qed
next
  case (2 S w)
  then show ?case by (simp add: visitRequires.simps)
next
  case (3 S w requireName names)
  from "3.prems"(1) show ?case
  proof (cases rule: visitRequires_cases)
    case provided
    with "3.IH"(1) "3.prems" show ?thesis by auto
  next
    case unowned
    with "3.prems" show ?thesis by simp
  next
    case (visit path w1)
    show ?thesis
    proof (cases "x \<in> set (scripts w1)")
      case True
      then have "(path, x) \<in> (set (edge_list S))\<^sup>*"
        using "3.IH"(2) [of path Normal w1] visit "3.prems"(3) by (simp add: getPathFromDeps_def)
      with visit show ?thesis by auto
    next
      case False
      then show ?thesis
        using "3.IH"(3) [of path Normal w1 c w'] visit "3.prems"(2)
        by (auto simp: getPathFromDeps_def)
    qed
  next
    case (thrown path e)
    then have "(path, x) \<in> (set (edge_list S))\<^sup>*"
      using "3.IH"(2) [of path "Throw e" w'] "3.prems"(2,3) by (simp add: getPathFromDeps_def)
    with thrown show ?thesis by auto
  qed
qed

lemma orderedI:
  assumes "\<And>A name B. A \<in> set (scripts w') \<Longrightarrow> A \<notin> set (scripts w) \<Longrightarrow> A \<notin> deps_visited w \<Longrightarrow>
     \<not> on_cycle S A \<Longrightarrow> name \<in> set (requires_of S A) \<Longrightarrow> \<not> isProvided S name \<Longrightarrow>
     getPathFromDeps S name = Some B \<Longrightarrow> B \<notin> written (dependencies S) \<Longrightarrow>
     precedes B A (scripts w')"
  shows "ordered S w w'"
  using assms unfolding ordered_def by blast

lemma orderedD:
  "ordered S w w' \<Longrightarrow> A \<in> set (scripts w') \<Longrightarrow> A \<notin> set (scripts w) \<Longrightarrow> A \<notin> deps_visited w \<Longrightarrow>
     \<not> on_cycle S A \<Longrightarrow> name \<in> set (requires_of S A) \<Longrightarrow> \<not> isProvided S name \<Longrightarrow>
     getPathFromDeps S name = Some B \<Longrightarrow> B \<notin> written (dependencies S) \<Longrightarrow>
     precedes B A (scripts w')"
  unfolding ordered_def by blast

lemma ordered_refl [simp]: "ordered S w w"
  by (auto simp: ordered_def)

lemma precedes_prefix: "precedes b a xs \<Longrightarrow> prefix xs ys \<Longrightarrow> precedes b a ys"
  by (auto simp: precedes_def prefix_def takeWhile_append1)

lemma takeWhile_upto_last: "a \<notin> set xs \<Longrightarrow> takeWhile (\<lambda>x. x \<noteq> a) (xs @ [a]) = xs"
  by (induction xs) auto

lemma precedes_snoc: "b \<in> set xs \<Longrightarrow> a \<notin> set xs \<Longrightarrow> precedes b a (xs @ [a])"
  by (simp add: precedes_def takeWhile_upto_last)

lemma takeWhile_upto_first:
  "a \<notin> set us \<Longrightarrow> takeWhile (\<lambda>x. x \<noteq> a) (us @ a # vs) = us"
  by (induction us) auto

lemma precedes_split:
  "precedes b a xs \<longleftrightarrow> (\<exists>us vs. xs = us @ a # vs \<and> a \<notin> set us \<and> b \<in> set us)"
proof
  assume p: "precedes b a xs"
  then have "xs = takeWhile (\<lambda>x. x \<noteq> a) xs @ a # tl (dropWhile (\<lambda>x. x \<noteq> a) xs)"
    by (metis (mono_tags, lifting) dropWhile_eq_Nil_conv hd_dropWhile list.collapse precedes_def
        takeWhile_dropWhile_id)
  moreover have "a \<notin> set (takeWhile (\<lambda>x. x \<noteq> a) xs)"
    by (auto dest: set_takeWhileD)
  ultimately show "\<exists>us vs. xs = us @ a # vs \<and> a \<notin> set us \<and> b \<in> set us"
    using p unfolding precedes_def by blast
next
  assume "\<exists>us vs. xs = us @ a # vs \<and> a \<notin> set us \<and> b \<in> set us"
  then obtain us vs where xs: "xs = us @ a # vs" "a \<notin> set us" "b \<in> set us"
    by blast
  then show "precedes b a xs"
    by (simp add: precedes_def takeWhile_upto_first)
qed

lemma precedes_filter_map:
  assumes "precedes b a xs" and "inj f" and "P (f a)" and "P (f b)"
  shows "precedes (f b) (f a) (filter P (map f xs))"
proof -
  from assms(1) obtain us vs where xs: "xs = us @ a # vs" "a \<notin> set us" "b \<in> set us"
    unfolding precedes_split by blast
  have "filter P (map f xs) = filter P (map f us) @ f a # filter P (map f vs)"
    using xs(1) assms(3) by simp
  moreover have "f a \<notin> set (filter P (map f us))"
    using xs(2) assms(2) by (auto dest: injD)
  moreover have "f b \<in> set (filter P (map f us))"
    using xs(3) assms(4) by simp
  ultimately show ?thesis
    unfolding precedes_split by blast
qed

lemma ordered_trans:
  assumes "ordered S w w1" and "ordered S w1 w2" and "walk_le w w1" and "walk_le w1 w2"
    and "settled S w w1"
  shows "ordered S w w2"
proof (rule orderedI)
  fix A name B
  assume A: "A \<in> set (scripts w2)" "A \<notin> set (scripts w)" "A \<notin> deps_visited w"
    "\<not> on_cycle S A" "name \<in> set (requires_of S A)" "\<not> isProvided S name"
    "getPathFromDeps S name = Some B" "B \<notin> written (dependencies S)"
  show "precedes B A (scripts w2)"
  proof (cases "A \<in> set (scripts w1)")
    case True
    from orderedD [OF assms(1) True A(2-8)] have "precedes B A (scripts w1)" .
    then show ?thesis
      using walk_le_prefix [OF assms(4)] by (rule precedes_prefix)
  next
    case False
    have "A \<notin> deps_visited w1"
      using settledD [OF assms(5), of A] A(3) False by blast
    from orderedD [OF assms(2) A(1) False this A(4-8)] show ?thesis .
  qed
qed

lemma visit_ordered:
  "walk_inv S w \<Longrightarrow> visitNode S w path = (Normal, w') \<Longrightarrow> ordered S w w'"
  "walk_inv S w \<Longrightarrow> visitRequires S w names = (Normal, w') \<Longrightarrow> ordered S w w'"
proof (induction S w path and S w names arbitrary: w' and w' rule: visitNode_visitRequires.induct)
  case (1 S w path)
  from "1.prems"(2) show ?case
  proof (cases rule: visitNode_cases)
    case written
    then show ?thesis by simp
  next
    case visited
    then show ?thesis
      by (auto simp: ordered_def push_script_def)
  next
    case (entered w1)
    let ?w = "w\<lparr>deps_visited := insert path (deps_visited w)\<rparr>"
    have inv: "walk_inv S ?w"
      using "1.prems"(1) by (rule walk_inv_mark)
    have o: "ordered S ?w w1"
      using "1.IH" entered inv by simp
    have inv1: "walk_inv S w1"
      using visit_walk_inv(2) [OF inv entered(3)] by simp
    have sat: "\<forall>name \<in> set (requires_of S path). satisfied S (scripts w1) name"
      using visitRequires_satisfies [OF inv entered(3)] .
    have pre: "prefix (scripts w1) (scripts w')"
      using entered(5) by (simp add: push_script_def)
    show ?thesis
    proof (rule orderedI)
      fix A name B
      assume A: "A \<in> set (scripts w')" "A \<notin> set (scripts w)" "A \<notin> deps_visited w"
        "\<not> on_cycle S A" "name \<in> set (requires_of S A)" "\<not> isProvided S name"
        "getPathFromDeps S name = Some B" "B \<notin> written (dependencies S)"
      show "precedes B A (scripts w')"
      proof (cases "A = path")
        case False
        with A(1) entered(5) have "A \<in> set (scripts w1)"
          by (auto simp: push_script_def split: if_splits)
        moreover have "A \<notin> set (scripts ?w)" "A \<notin> deps_visited ?w"
          using A(2,3) False by simp_all
        ultimately have "precedes B A (scripts w1)"
          using o A(4-8) by (intro orderedD [of S ?w w1 A name B])
        then show ?thesis
          using pre by (rule precedes_prefix)
      next
        case True
        have "path \<notin> set (scripts w1)"
        proof
          assume "path \<in> set (scripts w1)"
          moreover have "path \<notin> set (scripts ?w)"
            using A(2) True by simp
          ultimately obtain n q where "n \<in> set (requires_of S path)" "\<not> isProvided S n"
              "getPathFromDeps S n = Some q" "(q, path) \<in> (set (edge_list S))\<^sup>*"
            using visit_emits_reachable(2) [OF entered(3)] by blast
          then have "(path, q) \<in> set (edge_list S)"
            using edge_iff [of S path q] by (auto simp: edge_def)
          then have "on_cycle S path"
            unfolding on_cycle_def
            using \<open>(q, path) \<in> (set (edge_list S))\<^sup>*\<close> by (rule rtrancl_into_trancl2)
          with A(4) True show False by simp
        qed
        then have w': "scripts w' = scripts w1 @ [path]"
          using entered(5) inv1 by (simp add: push_script_def walk_inv_def)
        have "satisfied S (scripts w1) name"
          using sat A(5) True by simp
        then have "B \<in> set (scripts w1)"
          using A(6-8) by (simp add: satisfied_def)
        then show ?thesis
          using \<open>path \<notin> set (scripts w1)\<close> True w' by (simp add: precedes_snoc)
      qed
    qed
  qed simp
next
  case (2 S w)
  then show ?case by (simp add: visitRequires.simps)
next
  case (3 S w requireName names)
  from "3.prems"(2) show ?case
  proof (cases rule: visitRequires_cases)
    case provided
    with "3.IH"(1) "3.prems"(1) show ?thesis by simp
  next
    case (visit path w1)
    have o1: "ordered S w w1"
      using "3.IH"(2) visit "3.prems"(1) by (simp add: getPathFromDeps_def)
    have inv1: "walk_inv S w1" and le1: "walk_le w w1"
      using visit_walk_inv(1) [OF "3.prems"(1) visit(3)] by simp_all
    have o2: "ordered S w1 w'"
      using "3.IH"(3) [of path Normal w1] visit inv1 by (simp add: getPathFromDeps_def)
    have le2: "walk_le w1 w'"
      using visit_walk_inv(2) [OF inv1 visit(4)] by simp
    have "settled S w w1"
      using visit_settles(1) [OF "3.prems"(1) visit(3)] .
    with o1 o2 le1 le2 show ?thesis
      by (rule ordered_trans)
  qed simp_all
qed

subsection \<open>The loop over \<^verbatim>\<open>goog.included_\<close>\<close>

lemma visitIncluded_walk_inv:
  "walk_inv S w \<Longrightarrow> visitIncluded S w paths = (c, w') \<Longrightarrow> walk_inv S w' \<and> walk_le w w'"
proof (induction paths arbitrary: w)
  case Nil
  then show ?case by simp
next
  case (Cons path paths)
  show ?case
  proof (cases "path \<in> written (dependencies S)")
    case True
    with Cons show ?thesis by simp
  next
    case False
    obtain c1 w1 where v: "visitNode S w path = (c1, w1)"
      by (cases "visitNode S w path")
    have a: "walk_inv S w1 \<and> walk_le w w1"
      using visit_walk_inv(1) [OF Cons.prems(1) v] .
    show ?thesis
    proof (cases c1)
      case Normal
      with Cons.prems(2) False v have "visitIncluded S w1 paths = (c, w')"
        by simp
      with Cons.IH a have "walk_inv S w' \<and> walk_le w1 w'"
        by blast
      with a show ?thesis
        by (auto intro: walk_le_trans)
    next
      case (Throw e)
      with Cons.prems(2) False v a show ?thesis
        by simp
    qed
  qed
qed

lemma visitIncluded_throws_unresolved:
  "walk_inv S w \<Longrightarrow> visitIncluded S w paths = (Throw e, w') \<Longrightarrow>
   \<exists>p name. p \<in> deps_visited w' \<and> p \<notin> deps_visited w \<and> name \<in> set (requires_of S p)
      \<and> unresolved S name \<and> e = Error (''Undefined nameToPath for '' @ name)"
proof (induction paths arbitrary: w)
  case Nil
  then show ?case by simp
next
  case (Cons path paths)
  show ?case
  proof (cases "path \<in> written (dependencies S)")
    case True
    with Cons show ?thesis by simp
  next
    case False
    obtain c1 w1 where v: "visitNode S w path = (c1, w1)"
      by (cases "visitNode S w path")
    have inv1: "walk_inv S w1" and le1: "walk_le w w1"
      using visit_walk_inv(1) [OF Cons.prems(1) v] by simp_all
    show ?thesis
    proof (cases c1)
      case Normal
      with Cons.prems(2) False v have "visitIncluded S w1 paths = (Throw e, w')"
        by simp
      from Cons.IH [OF inv1 this] le1 show ?thesis
        by (auto simp: walk_le_def)
    next
      case (Throw e1)
      with Cons.prems False v have "e1 = e" "w1 = w'"
        by simp_all
      with v Throw show ?thesis
        using visit_throws_unresolved(1) [OF Cons.prems(1)] by blast
    qed
  qed
qed

lemma visitIncluded_normal:
  "walk_inv S w \<Longrightarrow> visitIncluded S w paths = (Normal, w') \<Longrightarrow>
   settled S w w' \<and> ordered S w w'
   \<and> (\<forall>path \<in> set paths. path \<in> written (dependencies S) \<or> path \<in> set (scripts w'))"
proof (induction paths arbitrary: w)
  case Nil
  then show ?case by simp
next
  case (Cons path paths)
  show ?case
  proof (cases "path \<in> written (dependencies S)")
    case True
    with Cons show ?thesis by simp
  next
    case False
    obtain c1 w1 where v: "visitNode S w path = (c1, w1)"
      by (cases "visitNode S w path")
    with Cons.prems(2) False have c1: "c1 = Normal" and r: "visitIncluded S w1 paths = (Normal, w')"
      by (cases c1; simp)+
    note v = v [unfolded c1]
    have inv1: "walk_inv S w1" and le1: "walk_le w w1"
      using visit_walk_inv(1) [OF Cons.prems(1) v] by simp_all
    have le2: "walk_le w1 w'"
      using visitIncluded_walk_inv [OF inv1 r] by simp
    have s1: "settled S w w1" and o1: "ordered S w w1"
      using visit_settles(1) [OF Cons.prems(1) v] visit_ordered(1) [OF Cons.prems(1) v] .
    have "path \<in> set (scripts w1)"
      using visitNode_emits [OF Cons.prems(1) v] False by simp
    then have "path \<in> set (scripts w')"
      using walk_le_scripts [OF le2] by blast
    moreover have "settled S w w'"
      using s1 Cons.IH [OF inv1 r] le2 by (blast intro: settled_trans)
    moreover have "ordered S w w'"
      using o1 Cons.IH [OF inv1 r] le1 le2 s1 by (blast intro: ordered_trans)
    ultimately show ?thesis
      using Cons.IH [OF inv1 r] by simp
  qed
qed

lemma visitIncluded_all_visited:
  "\<forall>p \<in> set paths. p \<in> written (dependencies S) \<or> p \<in> deps_visited w \<Longrightarrow>
   \<exists>w'. visitIncluded S w paths = (Normal, w') \<and> deps_visited w' = deps_visited w
     \<and> set (scripts w') \<subseteq> set (scripts w) \<union> (set paths - written (dependencies S))"
proof (induction paths arbitrary: w)
  case Nil
  then show ?case by simp
next
  case (Cons path paths)
  show ?case
  proof (cases "path \<in> written (dependencies S)")
    case True
    with Cons.IH [of w] Cons.prems show ?thesis
      by auto
  next
    case False
    with Cons.prems have v: "visitNode S w path = (Normal, push_script w path)"
      by (subst visitNode.simps) simp
    have "\<forall>p \<in> set paths. p \<in> written (dependencies S) \<or> p \<in> deps_visited (push_script w path)"
      using Cons.prems by simp
    from Cons.IH [OF this] obtain w' where w':
      "visitIncluded S (push_script w path) paths = (Normal, w')"
      "deps_visited w' = deps_visited w"
      "set (scripts w') \<subseteq> set (scripts (push_script w path)) \<union> (set paths - written (dependencies S))"
      by auto
    have "set (scripts (push_script w path)) \<subseteq> insert path (set (scripts w))"
      by (auto simp: push_script_def)
    with w' False v show ?thesis
      by auto
  qed
qed

lemma pass_scripts_start: "pass_scripts S = visitIncluded S (start_walk S) (included S)"
  by (simp add: pass_scripts_def)

lemma pass_scripts_inv: "pass_scripts S = (c, w) \<Longrightarrow> walk_inv S w"
  using visitIncluded_walk_inv [OF walk_inv_start, of S "included S" c w]
  by (simp add: pass_scripts_start)

lemma pass_scripts_visited:
  "pass_scripts S = (c, w) \<Longrightarrow> visited (dependencies S) \<subseteq> deps_visited w"
  using visitIncluded_walk_inv [OF walk_inv_start, of S "included S" c w]
  by (simp add: pass_scripts_start walk_le_def start_walk_def)

lemma pass_scripts_normal:
  assumes "pass_scripts S = (Normal, w)"
  shows "\<forall>path \<in> set (included S). path \<in> written (dependencies S) \<or> path \<in> set (scripts w)"
    and "\<forall>p \<in> deps_visited w - visited (dependencies S).
           p \<in> set (scripts w) \<and> (\<forall>name \<in> set (requires_of S p). satisfied S (scripts w) name)"
proof -
  have r: "visitIncluded S (start_walk S) (included S) = (Normal, w)"
    using assms by (simp add: pass_scripts_start)
  note n = visitIncluded_normal [OF walk_inv_start r]
  from n show "\<forall>path \<in> set (included S). path \<in> written (dependencies S) \<or> path \<in> set (scripts w)"
    by simp
  from n have "settled S (start_walk S) w"
    by simp
  then show "\<forall>p \<in> deps_visited w - visited (dependencies S).
           p \<in> set (scripts w) \<and> (\<forall>name \<in> set (requires_of S p). satisfied S (scripts w) name)"
    by (simp add: settled_def start_walk_def)
qed

lemma pass_scripts_throw:
  "pass_scripts S = (Throw e, w) \<Longrightarrow>
   \<exists>p name. p \<in> deps_visited w \<and> p \<notin> visited (dependencies S) \<and> name \<in> set (requires_of S p)
      \<and> unresolved S name \<and> e = Error (''Undefined nameToPath for '' @ name)"
  using visitIncluded_throws_unresolved [OF walk_inv_start, of S "included S" e w]
  by (simp add: pass_scripts_start start_walk_def)

lemma requirement_emitted_first:
  assumes "pass_scripts S = (Normal, w)"
    and "A \<in> set (scripts w)" and "B \<in> set (scripts w)"
    and "name \<in> set (requires_of S A)" and "\<not> isProvided S name"
    and "getPathFromDeps S name = Some B"
    and "A \<notin> visited (dependencies S)" and "\<not> on_cycle S A"
  shows "precedes B A (scripts w)"
proof -
  have r: "visitIncluded S (start_walk S) (included S) = (Normal, w)"
    using assms(1) by (simp add: pass_scripts_start)
  have "walk_inv S w"
    using visitIncluded_walk_inv [OF walk_inv_start r] by simp
  with assms(3) have B: "B \<notin> written (dependencies S)"
    by (auto simp: walk_inv_def)
  have "ordered S (start_walk S) w"
    using visitIncluded_normal [OF walk_inv_start r] by simp
  then show ?thesis
    using assms(2,4-8) B by (intro orderedD [of S "start_walk S" w A name B]) (simp_all add: start_walk_def)
qed

lemma count_list_distinct: "distinct xs \<Longrightarrow> x \<in> set xs \<Longrightarrow> count_list xs x = 1"
  by (induction xs) auto

text \<open>
  Claim C2, as amended. Whatever the dependency index, cyclic or not, a pass ends:
  \<open>visitNode\<close> is a total function, by the termination proof above. Its output holds no
  path twice. When it throws, the error names a requirement of a file the pass has entered
  that no file provides and that is not provided on the page either, so a cycle alone
  never makes it throw. When it completes, every requested file not yet written is in
  the output exactly once; and if no earlier pass has marked it, so is every file that
  it reaches along requirements not yet provided, through files that are neither marked
  by an earlier pass nor written: every file of a cycle of such files, in particular.
\<close>

lemma pass_scripts_reaches:
  assumes "pass_scripts S = (Normal, w)"
    and "(A, M) \<in> (set (fresh_edges S))\<^sup>*"
    and "A \<in> deps_visited w - visited (dependencies S)"
  shows "M \<in> deps_visited w - visited (dependencies S)"
  using assms(2,3)
proof (induction rule: rtrancl_induct)
  case base
  then show ?case .
next
  case (step M M')
  from step.hyps(2) have e: "edge S M M'" and f: "M' \<notin> visited (dependencies S)"
      "M' \<notin> written (dependencies S)"
    by (auto simp: fresh_edges_def edge_iff)
  from pass_scripts_normal(2) [OF assms(1)] step.IH [OF step.prems]
  have "\<forall>name \<in> set (requires_of S M). satisfied S (scripts w) name"
    by blast
  with e f(2) have "M' \<in> set (scripts w)"
    by (auto simp: edge_def satisfied_def)
  then have "M' \<in> deps_visited w"
    using pass_scripts_inv [OF assms(1)] by (auto simp: walk_inv_def)
  with f(1) show ?case
    by simp
qed

theorem pass_cycle_safe:
  "\<exists>c w. pass_scripts S = (c, w) \<and> distinct (scripts w)
     \<and> (\<forall>e. c = Throw e \<longrightarrow>
           (\<exists>p name. p \<in> deps_visited w \<and> p \<notin> visited (dependencies S)
              \<and> name \<in> set (requires_of S p) \<and> unresolved S name
              \<and> e = Error (''Undefined nameToPath for '' @ name)))
     \<and> (c = Normal \<longrightarrow>
           (\<forall>A \<in> set (included S). A \<notin> written (dependencies S) \<longrightarrow>
               count_list (scripts w) A = 1
             \<and> (A \<notin> visited (dependencies S) \<longrightarrow>
                  (\<forall>M. (A, M) \<in> (set (fresh_edges S))\<^sup>* \<longrightarrow> count_list (scripts w) M = 1))))"
proof -
  obtain c w where p: "pass_scripts S = (c, w)"
    by (cases "pass_scripts S")
  have inv: "walk_inv S w"
    using pass_scripts_inv [OF p] .
  then have d: "distinct (scripts w)"
    by (simp add: walk_inv_def)
  have t: "\<exists>p name. p \<in> deps_visited w \<and> p \<notin> visited (dependencies S)
              \<and> name \<in> set (requires_of S p) \<and> unresolved S name
              \<and> e = Error (''Undefined nameToPath for '' @ name)"
    if "c = Throw e" for e
    using p that pass_scripts_throw by blast
  have n1: "A \<in> set (scripts w)"
    if "c = Normal" "A \<in> set (included S)" "A \<notin> written (dependencies S)" for A
    using pass_scripts_normal(1) [of S w] p that by auto
  have n2: "count_list (scripts w) M = 1"
    if c: "c = Normal" and A: "A \<in> set (included S)" "A \<notin> written (dependencies S)"
      "A \<notin> visited (dependencies S)" and M: "(A, M) \<in> (set (fresh_edges S))\<^sup>*" for A M
  proof -
    have "A \<in> deps_visited w - visited (dependencies S)"
      using n1 [OF c A(1,2)] A(3) inv by (auto simp: walk_inv_def)
    from pass_scripts_reaches [OF p [unfolded c] M this]
    have "M \<in> deps_visited w - visited (dependencies S)" .
    with pass_scripts_normal(2) [OF p [unfolded c]] have "M \<in> set (scripts w)"
      by blast
    with d show ?thesis
      by (simp add: count_list_distinct)
  qed
  from p d t n1 n2 show ?thesis
    by (auto simp: count_list_distinct)
qed

theorem pass_cycle_safe_witness:
  "pass_scripts (cycle_page\<lparr>included := [''a.js'']\<rparr>)
     = (Normal, \<lparr>deps_visited = {''a.js'', ''b.js''}, seenScript = {''a.js'', ''b.js''},
                 scripts = [''a.js'', ''b.js'']\<rparr>)
   \<and> on_cycle cycle_page ''a.js'' \<and> on_cycle cycle_page ''b.js''
   \<and> count_list (scripts (snd (pass_scripts (cycle_page\<lparr>included := [''a.js'']\<rparr>)))) ''a.js'' = 1
   \<and> count_list (scripts (snd (pass_scripts (cycle_page\<lparr>included := [''a.js'']\<rparr>)))) ''b.js'' = 1"
proof -
  let ?S = "cycle_page\<lparr>included := [''a.js'']\<rparr>"
  have p: "pass_scripts ?S
     = (Normal, \<lparr>deps_visited = {''a.js'', ''b.js''}, seenScript = {''a.js'', ''b.js''},
                 scripts = [''a.js'', ''b.js'']\<rparr>)"
    by code_simp
  have c: "on_cycle cycle_page ''a.js''" "on_cycle cycle_page ''b.js''"
    by code_simp+
  have h: "''a.js'' \<in> set (included ?S)" "''a.js'' \<notin> written (dependencies ?S)"
    "''a.js'' \<notin> visited (dependencies ?S)"
    by code_simp+
  have "(''a.js'', ''b.js'') \<in> set (fresh_edges ?S)"
    by code_simp
  then have r: "(''a.js'', ''b.js'') \<in> (set (fresh_edges ?S))\<^sup>*"
    by (rule r_into_rtrancl)
  from pass_cycle_safe [of ?S] p h
  have "count_list (scripts (snd (pass_scripts ?S))) ''a.js'' = 1"
    "\<forall>M. (''a.js'', M) \<in> (set (fresh_edges ?S))\<^sup>*
        \<longrightarrow> count_list (scripts (snd (pass_scripts ?S))) M = 1"
    by auto
  with r have "count_list (scripts (snd (pass_scripts ?S))) ''a.js'' = 1"
    "count_list (scripts (snd (pass_scripts ?S))) ''b.js'' = 1"
    by blast+
  with p c show ?thesis
    by simp
qed

text \<open>
  The claim as it stands fails for a file of the cycle that an earlier pass has left
  marked. On the page where \<^verbatim>\<open>a.js\<close> and \<^verbatim>\<open>b.js\<close> require each other, a first
  \<^verbatim>\<open>goog.require('a')\<close> whose imports fail hands over \<^verbatim>\<open>a.js\<close> and \<^verbatim>\<open>b.js\<close> and writes
  neither. The pass of the next \<^verbatim>\<open>goog.require('a')\<close> finds \<^verbatim>\<open>a.js\<close> marked, pushes it
  without entering it, and its output is \<^verbatim>\<open>a.js\<close> alone: \<^verbatim>\<open>b.js\<close>, on the cycle and
  not written, is not emitted.
\<close>

theorem pass_cycle_counterexample:
  "on_cycle cycle_page ''a.js'' \<and> on_cycle cycle_page ''b.js''
   \<and> snd (snd (require (\<lambda>src. False) cycle_page ''a'')) = [''a.js'', ''b.js'']
   \<and> ''b.js'' \<notin> written (dependencies (fst (snd (require (\<lambda>src. False) cycle_page ''a''))))
   \<and> scripts (snd (pass_scripts (fst (snd (require (\<lambda>src. False) cycle_page ''a'')))))
       = [''a.js'']
   \<and> snd (snd (require (\<lambda>src. False) (fst (snd (require (\<lambda>src. False) cycle_page ''a''))) ''a''))
       = [''a.js'']"
  by code_simp

section \<open>Requests\<close>

subsection \<open>The imports of a pass\<close>

lemma set_written_simps [simp]:
  "written (dependencies (set_written S W)) = W"
  "visited (dependencies (set_written S W)) = visited (dependencies S)"
  "basePath (set_written S W) = basePath S"
  "included (set_written S W) = included S"
  "set_written (set_written S W) W' = set_written S W'"
  "set_written S (written (dependencies S)) = S"
  by (simp_all add: set_written_def)

lemma set_written_reads [simp]:
  "isProvided (set_written S W) = isProvided S"
  "getPathFromDeps (set_written S W) = getPathFromDeps S"
  by (simp_all add: set_written_def isProvided_def getPathFromDeps_def fun_eq_iff)

lemma importScript_state:
  "importScript imp S src = (S', called) \<Longrightarrow>
   S' = set_written S (written (dependencies S'))
   \<and> written (dependencies S) \<subseteq> written (dependencies S')
   \<and> written (dependencies S') \<subseteq> insert src (written (dependencies S))"
  by (auto simp: importScript_def set_written_def split: if_splits)

lemma importScript_called:
  "importScript imp S src = (S', called) \<Longrightarrow>
   set called \<subseteq> {src} \<and> distinct called \<and> set called \<inter> written (dependencies S) = {}
   \<and> (src \<in> written (dependencies S') \<or> (src \<in> set called \<and> \<not> imp src))"
  by (auto simp: importScript_def set_written_def split: if_splits)

lemma importScripts_state:
  "importScripts imp S calls ss = (c, S', calls') \<Longrightarrow>
   S' = set_written S (written (dependencies S'))
   \<and> written (dependencies S) \<subseteq> written (dependencies S')"
proof (induction ss arbitrary: S calls)
  case Nil
  then show ?case by simp
next
  case (Cons s ss)
  show ?case
  proof (cases "s = []")
    case True
    with Cons.prems show ?thesis by simp
  next
    case False
    obtain S1 called where i: "importScript imp S (basePath S @ s) = (S1, called)"
      by (cases "importScript imp S (basePath S @ s)")
    with Cons.prems False have r: "importScripts imp S1 (calls @ called) ss = (c, S', calls')"
      by simp
    from Cons.IH [OF r] importScript_state [OF i]
    have "S' = set_written S1 (written (dependencies S'))" "S1 = set_written S (written (dependencies S1))"
      "written (dependencies S) \<subseteq> written (dependencies S')"
      by auto
    then show ?thesis
      by (metis set_written_simps(5))
  qed
qed

lemma importScripts_calls:
  "importScripts imp S calls ss = (c, S', calls') \<Longrightarrow>
   \<exists>new. calls' = calls @ new \<and> set new \<inter> written (dependencies S) = {}
     \<and> set new \<subseteq> (\<lambda>s. basePath S @ s) ` set ss \<and> (distinct ss \<longrightarrow> distinct new)"
proof (induction ss arbitrary: S calls)
  case Nil
  then show ?case by simp
next
  case (Cons s ss)
  show ?case
  proof (cases "s = []")
    case True
    with Cons.prems show ?thesis by simp
  next
    case False
    let ?src = "basePath S @ s"
    obtain S1 called where i: "importScript imp S ?src = (S1, called)"
      by (cases "importScript imp S ?src")
    with Cons.prems False have r: "importScripts imp S1 (calls @ called) ss = (c, S', calls')"
      by simp
    from Cons.IH [OF r] obtain new where new: "calls' = (calls @ called) @ new"
      "set new \<inter> written (dependencies S1) = {}"
      "set new \<subseteq> (\<lambda>s. basePath S1 @ s) ` set ss" "distinct ss \<longrightarrow> distinct new"
      by blast
    note st = importScript_state [OF i] and ca = importScript_called [OF i]
    have b: "basePath S1 = basePath S"
      using st by (metis set_written_simps(3))
    have 1: "calls' = calls @ (called @ new)"
      using new(1) by simp
    have 2: "set (called @ new) \<inter> written (dependencies S) = {}"
      using ca new(2) st by auto
    have 3: "set (called @ new) \<subseteq> (\<lambda>s. basePath S @ s) ` set (s # ss)"
      using ca new(3) b by auto
    have 4: "distinct (called @ new)" if d: "distinct (s # ss)"
    proof -
      have "?src \<notin> set new"
        using new(3) d b by auto
      then show ?thesis
        using ca new(4) d by auto
    qed
    from 1 2 3 4 show ?thesis
      by blast
  qed
qed

lemma importScripts_normal:
  "importScripts imp S calls ss = (Normal, S', calls') \<Longrightarrow> s \<in> set ss \<Longrightarrow>
   s \<noteq> [] \<and> (basePath S @ s \<in> written (dependencies S')
               \<or> (basePath S @ s \<in> set calls' \<and> \<not> imp (basePath S @ s)))"
proof (induction ss arbitrary: S calls)
  case Nil
  then show ?case by simp
next
  case (Cons t ss)
  from Cons.prems(1) have t: "t \<noteq> []"
    by (auto split: if_splits)
  let ?src = "basePath S @ t"
  obtain S1 called where i: "importScript imp S ?src = (S1, called)"
    by (cases "importScript imp S ?src")
  with Cons.prems t have r: "importScripts imp S1 (calls @ called) ss = (Normal, S', calls')"
    by simp
  note st = importScript_state [OF i] and ca = importScript_called [OF i]
  have b: "basePath S1 = basePath S"
    using st by (metis set_written_simps(3))
  have w: "written (dependencies S1) \<subseteq> written (dependencies S')"
    using importScripts_state [OF r] by simp
  obtain new where new: "calls' = (calls @ called) @ new"
    using importScripts_calls [OF r] by blast
  show ?case
  proof (cases "s = t")
    case True
    with t ca w new show ?thesis by auto
  next
    case False
    with Cons.prems(2) have "s \<in> set ss" by simp
    from Cons.IH [OF r this] b show ?thesis by simp
  qed
qed

lemma importScripts_nothing_to_do:
  "\<forall>s \<in> set ss. s \<noteq> [] \<and> basePath S @ s \<in> written (dependencies S) \<Longrightarrow>
   importScripts imp S calls ss = (Normal, S, calls)"
  by (induction ss) (simp_all add: importScript_def)

lemma importScripts_calls_exact:
  "distinct ss \<Longrightarrow> importScripts imp S calls ss = (Normal, S', calls') \<Longrightarrow>
   calls' = calls @ filter (\<lambda>src. src \<notin> written (dependencies S)) (map (\<lambda>s. basePath S @ s) ss)"
proof (induction ss arbitrary: S calls)
  case Nil
  then show ?case by simp
next
  case (Cons s ss)
  from Cons.prems(2) have s: "s \<noteq> []"
    by (auto split: if_splits)
  let ?src = "basePath S @ s"
  obtain S1 called where i: "importScript imp S ?src = (S1, called)"
    by (cases "importScript imp S ?src")
  with Cons.prems s have r: "importScripts imp S1 (calls @ called) ss = (Normal, S', calls')"
    by simp
  note st = importScript_state [OF i]
  have b: "basePath S1 = basePath S"
    using st by (metis set_written_simps(3))
  have "?src \<notin> set (map (\<lambda>s. basePath S @ s) ss)"
    using Cons.prems(1) by auto
  then have same: "filter (\<lambda>src. src \<notin> written (dependencies S1)) (map (\<lambda>s. basePath S @ s) ss)
      = filter (\<lambda>src. src \<notin> written (dependencies S)) (map (\<lambda>s. basePath S @ s) ss)"
    using st by (intro filter_cong) auto
  have called: "called = (if ?src \<in> written (dependencies S) then [] else [?src])"
    using i by (auto simp: importScript_def split: if_splits)
  from Cons.IH [OF _ r] Cons.prems(1) have "calls' = (calls @ called)
      @ filter (\<lambda>src. src \<notin> written (dependencies S1)) (map (\<lambda>s. basePath S1 @ s) ss)"
    by simp
  then show ?case
    using same called b by simp
qed

subsection \<open>The ways a request can go\<close>

lemma included_update_simps [simp]:
  "isProvided (S\<lparr>included := X\<rparr>) = isProvided S"
  "requires_of (S\<lparr>included := X\<rparr>) = requires_of S"
  "getPathFromDeps (S\<lparr>included := X\<rparr>) = getPathFromDeps S"
  "unresolved (S\<lparr>included := X\<rparr>) = unresolved S"
  by (auto simp: isProvided_def requires_of_def getPathFromDeps_def unresolved_def fun_eq_iff)

lemma satisfied_included [simp]: "satisfied (S\<lparr>included := X\<rparr>) = satisfied S"
  by (auto simp: satisfied_def fun_eq_iff split: option.splits)

lemma on_cycle_included [simp]: "on_cycle (S\<lparr>included := X\<rparr>) = on_cycle S"
  by (simp add: on_cycle_def edge_list_def fun_eq_iff)

lemma fresh_edges_included [simp]: "fresh_edges (S\<lparr>included := X\<rparr>) = fresh_edges S"
  by (simp add: fresh_edges_def edge_list_def cong: if_cong)

lemma store_visited_simps [simp]:
  "visited (dependencies (store_visited S w)) = deps_visited w"
  "written (dependencies (store_visited S w)) = written (dependencies S)"
  "basePath (store_visited S w) = basePath S"
  "included (store_visited S w) = included S"
  by (simp_all add: store_visited_def)

lemma store_visited_reads [simp]:
  "isProvided (store_visited S w) = isProvided S"
  "getPathFromDeps (store_visited S w) = getPathFromDeps S"
  by (simp_all add: store_visited_def isProvided_def getPathFromDeps_def fun_eq_iff)

lemma store_visited_same: "deps_visited w = visited (dependencies S) \<Longrightarrow> store_visited S w = S"
  by (simp add: store_visited_def)

lemma add_key_idem: "add_key k (add_key k ks) = add_key k ks"
  by (simp add: add_key_def)

lemma writeScripts_cases:
  assumes "writeScripts imp S = (c, S', calls)"
  obtains (thrown) e w where "pass_scripts S = (Throw e, w)" "c = Throw e"
      "S' = store_visited S w" "calls = []"
  | (walked) w where "pass_scripts S = (Normal, w)"
      "importScripts imp (store_visited S w) [] (scripts w) = (c, S', calls)"
  using assms
  by (cases "pass_scripts S") (auto simp: writeScripts_def split: completion.splits)

lemma require_cases:
  assumes "require imp S name = (c, S', calls)"
  obtains (provided) "isProvided S name" "c = Normal" "S' = S" "calls = []"
  | (not_found) "\<not> isProvided S name" "getPathFromDeps S name = None \<or> getPathFromDeps S name = Some []"
      "c = Throw (Error (''goog.require could not find: '' @ name))" "S' = S" "calls = []"
  | (written) path where "\<not> isProvided S name" "getPathFromDeps S name = Some path" "path \<noteq> []"
      "writeScripts imp (S\<lparr>included := add_key path (included S)\<rparr>) = (c, S', calls)"
  using assms
  by (auto simp: require_def split: if_splits option.splits)

lemma writeScripts_grows:
  assumes "writeScripts imp S = (c, S', calls)"
  shows "visited (dependencies S) \<subseteq> visited (dependencies S')
    \<and> written (dependencies S) \<subseteq> written (dependencies S')"
  using assms
proof (cases rule: writeScripts_cases)
  case (thrown e w)
  then show ?thesis
    using pass_scripts_visited by simp
next
  case (walked w)
  from importScripts_state [OF walked(2)]
  have "S' = set_written (store_visited S w) (written (dependencies S'))"
    "written (dependencies S) \<subseteq> written (dependencies S')"
    by simp_all
  then have "visited (dependencies S') = deps_visited w \<and> written (dependencies S) \<subseteq> written (dependencies S')"
    by (metis set_written_simps(2) store_visited_simps(1))
  then show ?thesis
    using pass_scripts_visited [OF walked(1)] by simp
qed

subsection \<open>A requirement is injected before the file that requires it\<close>

text \<open>
  Claim C1, as amended. Let \<^verbatim>\<open>goog.require\<close> return normally and hand both \<open>A\<close> and
  \<open>B\<close> to the import function, where \<open>A\<close> requires a name that is not provided yet and
  that \<open>B\<close> owns. If \<open>A\<close> carried no visited mark when the request was made and \<open>A\<close>
  lies on no cycle of requirements, then \<open>B\<close> is handed over strictly before \<open>A\<close>.
\<close>

theorem requirement_injected_first:
  assumes "require imp S requested = (Normal, S', calls)"
    and "basePath S @ A \<in> set calls" and "basePath S @ B \<in> set calls"
    and "name \<in> set (requires_of S A)" and "\<not> isProvided S name"
    and "getPathFromDeps S name = Some B"
    and "A \<notin> visited (dependencies S)" and "\<not> on_cycle S A"
  shows "precedes (basePath S @ B) (basePath S @ A) calls"
  using assms(1)
proof (cases rule: require_cases)
  case provided
  with assms(2) show ?thesis by simp
next
  case not_found
  then show ?thesis by simp
next
  case (written path)
  let ?S = "S\<lparr>included := add_key path (included S)\<rparr>"
  let ?f = "\<lambda>s. basePath S @ s"
  let ?P = "\<lambda>src. src \<notin> written (dependencies S)"
  from written(4) show ?thesis
  proof (cases rule: writeScripts_cases)
    case (walked w)
    have "distinct (scripts w)"
      using pass_scripts_inv [OF walked(1)] by (simp add: walk_inv_def)
    from importScripts_calls_exact [OF this walked(2)]
    have calls: "calls = filter ?P (map ?f (scripts w))"
      by simp
    from assms(2,3) have in_out: "A \<in> set (scripts w)" "B \<in> set (scripts w)"
      and new: "?P (?f A)" "?P (?f B)"
      unfolding calls by auto
    have "precedes B A (scripts w)"
      using requirement_emitted_first [OF walked(1) in_out] assms(4-8) by simp
    then show ?thesis
      unfolding calls using new by (intro precedes_filter_map) (auto simp: inj_def)
  qed simp
qed

theorem requirement_injected_first_witness:
  "snd (snd (require (\<lambda>src. True) chain_page ''z'')) = [''m1'', ''m2'', ''m3'']
   \<and> precedes ''m2'' ''m3'' (snd (snd (require (\<lambda>src. True) chain_page ''z'')))"
proof -
  let ?r = "require (\<lambda>src. True) chain_page ''z''"
  have n: "fst ?r = Normal" and s: "snd (snd ?r) = [''m1'', ''m2'', ''m3'']"
    by code_simp+
  have r: "?r = (Normal, fst (snd ?r), snd (snd ?r))"
    using n by (simp add: prod_eq_iff)
  have b: "basePath chain_page = []"
    by code_simp
  have h: "''y'' \<in> set (requires_of chain_page ''m3'')" "\<not> isProvided chain_page ''y''"
    "getPathFromDeps chain_page ''y'' = Some ''m2''" "''m3'' \<notin> visited (dependencies chain_page)"
    "\<not> on_cycle chain_page ''m3''"
    by code_simp+
  have "precedes (basePath chain_page @ ''m2'') (basePath chain_page @ ''m3'') (snd (snd ?r))"
    by (rule requirement_injected_first [OF r _ _ h]) (simp_all add: s b)
  with s b show ?thesis
    by simp
qed

text \<open>
  The claim as it stands fails when \<open>A\<close> lies on a cycle that \<open>B\<close> is not part of.
  \<^verbatim>\<open>a.js\<close> requires \<^verbatim>\<open>d\<close> and \<^verbatim>\<open>b\<close>, and \<^verbatim>\<open>d.js\<close> requires \<^verbatim>\<open>a\<close>; \<^verbatim>\<open>b.js\<close>
  requires nothing, so no cycle holds both \<^verbatim>\<open>a.js\<close> and \<^verbatim>\<open>b.js\<close>. The walk meets
  \<^verbatim>\<open>a.js\<close> again below \<^verbatim>\<open>d.js\<close> and pushes it at once, before it has looked at
  \<^verbatim>\<open>b\<close>: \<^verbatim>\<open>goog.require('a')\<close> hands over \<^verbatim>\<open>a.js\<close>, \<^verbatim>\<open>d.js\<close>, \<^verbatim>\<open>b.js\<close>.

  It also fails without any cycle when \<open>A\<close> is still marked from an earlier pass. On the
  chain, a \<^verbatim>\<open>goog.require('z')\<close> whose imports fail leaves \<^verbatim>\<open>m1\<close>, \<^verbatim>\<open>m2\<close>, \<^verbatim>\<open>m3\<close>
  marked and not written; the pass of a following \<^verbatim>\<open>goog.require('y')\<close> pushes the
  marked \<^verbatim>\<open>m3\<close> and \<^verbatim>\<open>m2\<close> in the order of \<^verbatim>\<open>goog.included_\<close> and hands \<^verbatim>\<open>m3\<close> over
  before \<^verbatim>\<open>m2\<close>, which owns the \<^verbatim>\<open>y\<close> that \<^verbatim>\<open>m3\<close> requires.
\<close>

theorem requirement_first_counterexample:
  "require (\<lambda>src. True) side_cycle_page ''a''
     = (Normal,
        side_cycle_page
          \<lparr>included := [''a.js''],
           dependencies := (dependencies side_cycle_page)
             \<lparr>visited := {''a.js'', ''d.js'', ''b.js''}, written := {''a.js'', ''d.js'', ''b.js''}\<rparr>\<rparr>,
        [''a.js'', ''d.js'', ''b.js''])
   \<and> ''b'' \<in> set (requires_of side_cycle_page ''a.js'')
   \<and> getPathFromDeps side_cycle_page ''b'' = Some ''b.js''
   \<and> requires_of side_cycle_page ''b.js'' = []
   \<and> \<not> on_cycle side_cycle_page ''b.js''
   \<and> \<not> precedes ''b.js'' ''a.js'' [''a.js'', ''d.js'', ''b.js'']
   \<and> ''y'' \<in> set (requires_of chain_page ''m3'')
   \<and> getPathFromDeps chain_page ''y'' = Some ''m2''
   \<and> \<not> on_cycle chain_page ''m3'' \<and> \<not> on_cycle chain_page ''m2''
   \<and> snd (snd (require (\<lambda>src. False) (fst (snd (require (\<lambda>src. False) chain_page ''z''))) ''y''))
       = [''m3'', ''m2'']"
  by code_simp

subsection \<open>A requirement that nothing provides\<close>





subsection \<open>What a pass leaves behind\<close>

text \<open>
  Claim C9, as amended. \<^verbatim>\<open>scripts\<close> and \<^verbatim>\<open>seenScript\<close> are made empty at the start of
  every pass (\<open>start_walk\<close>). The marks of \<^verbatim>\<open>deps.visited\<close> and the set
  \<^verbatim>\<open>deps.written\<close> belong to the process: whatever a request does, throwing or not,
  every path marked visited stays marked and every path written stays written.
\<close>

theorem visited_and_written_persist:
  assumes "require imp S name = (c, S', calls)"
  shows "visited (dependencies S) \<subseteq> visited (dependencies S')
    \<and> written (dependencies S) \<subseteq> written (dependencies S')"
  using assms
proof (cases rule: require_cases)
  case (written path)
  from writeScripts_grows [OF written(4)] show ?thesis by simp
qed simp_all

theorem visited_and_written_persist_witness:
  "{''m1'', ''m2'', ''m3''}
     \<subseteq> visited (dependencies (fst (snd (require (\<lambda>src. False)
           (fst (snd (require (\<lambda>src. False) chain_page ''z''))) ''z''))))"
proof -
  let ?S1 = "fst (snd (require (\<lambda>src. False) chain_page ''z''))"
  let ?r = "require (\<lambda>src. False) ?S1 ''z''"
  have v: "visited (dependencies ?S1) = {''m1'', ''m2'', ''m3''}"
    by code_simp
  have "?r = (fst ?r, fst (snd ?r), snd (snd ?r))"
    by simp
  from visited_and_written_persist [OF this] v show ?thesis
    by simp
qed

text \<open>
  The claim as it stands fails: after a request whose imports all failed, \<^verbatim>\<open>m3\<close> is
  not written, and the next pass starts with \<^verbatim>\<open>m3\<close> marked visited.
\<close>

theorem visited_persists_counterexample:
  "''m3'' \<notin> written (dependencies (fst (snd (require (\<lambda>src. False) chain_page ''z''))))
   \<and> ''m3'' \<in> deps_visited (start_walk (fst (snd (require (\<lambda>src. False) chain_page ''z''))))"
  by code_simp

subsection \<open>Requesting the same name again\<close>

text \<open>
  Claim C8. No request hands the import function a source that is in \<^verbatim>\<open>deps.written\<close>,
  nor the same source twice. When a request has returned normally and every import it
  made has succeeded, the same request made again returns normally, hands nothing to the
  import function and leaves the state as it is.
\<close>

theorem require_again_injects_nothing:
  assumes "require imp S name = (c, S1, calls1)"
  shows "set calls1 \<inter> written (dependencies S) = {} \<and> distinct calls1
    \<and> (c = Normal \<and> (\<forall>src \<in> set calls1. imp src) \<longrightarrow> require imp S1 name = (Normal, S1, []))"
  using assms
proof (cases rule: require_cases)
  case provided
  then show ?thesis by (simp add: require_def)
next
  case not_found
  then show ?thesis by simp
next
  case (written path)
  let ?S = "S\<lparr>included := add_key path (included S)\<rparr>"
  from written(4) show ?thesis
  proof (cases rule: writeScripts_cases)
    case (thrown e w)
    then show ?thesis by simp
  next
    case (walked w)
    have inv: "walk_inv ?S w"
      using pass_scripts_inv [OF walked(1)] .
    have st: "S1 = set_written (store_visited ?S w) (written (dependencies S1))"
      and mono: "written (dependencies S) \<subseteq> written (dependencies S1)"
      using importScripts_state [OF walked(2)] by simp_all
    have fields: "visited (dependencies S1) = deps_visited w" "included S1 = add_key path (included S)"
      "basePath S1 = basePath S" "isProvided S1 = isProvided S"
      "getPathFromDeps S1 = getPathFromDeps S"
      by (subst st, simp)+
    from importScripts_calls [OF walked(2)] inv
    have first: "set calls1 \<inter> written (dependencies S) = {} \<and> distinct calls1"
      by (auto simp: walk_inv_def)
    have again: "require imp S1 name = (Normal, S1, [])"
      if c: "c = Normal" and ok: "\<forall>src \<in> set calls1. imp src"
    proof -
      have roots: "p \<in> written (dependencies S1) \<or> p \<in> deps_visited (start_walk S1)"
        if "p \<in> set (included S1)" for p
      proof -
        from that pass_scripts_normal(1) [OF walked(1)]
        have "p \<in> written (dependencies S) \<or> p \<in> set (scripts w)"
          by (simp add: fields)
        then show ?thesis
          using mono inv by (auto simp: walk_inv_def start_walk_def fields)
      qed
      then obtain w2 where w2: "pass_scripts S1 = (Normal, w2)"
        "deps_visited w2 = visited (dependencies S1)"
        "set (scripts w2) \<subseteq> set (included S1) - written (dependencies S1)"
        using visitIncluded_all_visited [of "included S1" S1 "start_walk S1"]
        by (auto simp: pass_scripts_start start_walk_def)
      have fin: "s \<noteq> [] \<and> basePath S1 @ s \<in> written (dependencies S1)" if "s \<in> set (scripts w2)" for s
      proof -
        from that w2(3) have "s \<in> set (included ?S)" "s \<notin> written (dependencies ?S)"
          using mono by (auto simp: fields)
        with pass_scripts_normal(1) [OF walked(1)] have "s \<in> set (scripts w)"
          by blast
        from importScripts_normal [OF walked(2) [unfolded c] this] ok show ?thesis
          by (auto simp: fields)
      qed
      have "importScripts imp (store_visited S1 w2) [] (scripts w2) = (Normal, store_visited S1 w2, [])"
        using fin by (intro importScripts_nothing_to_do) simp
      then have "writeScripts imp S1 = (Normal, S1, [])"
        using w2(1,2) by (simp add: writeScripts_def store_visited_same)
      moreover have "S1\<lparr>included := add_key path (included S1)\<rparr> = S1"
        by (simp add: fields add_key_idem)
      ultimately show ?thesis
        using written(1-3) by (simp add: require_def fields)
    qed
    from first again show ?thesis
      by blast
  qed
qed

theorem require_again_injects_nothing_witness:
  "snd (snd (require (\<lambda>src. True) chain_page ''z'')) = [''m1'', ''m2'', ''m3'']
   \<and> require (\<lambda>src. True) (fst (snd (require (\<lambda>src. True) chain_page ''z''))) ''z''
       = (Normal, fst (snd (require (\<lambda>src. True) chain_page ''z'')), [])"
proof -
  let ?r = "require (\<lambda>src. True) chain_page ''z''"
  have n: "fst ?r = Normal" and s: "snd (snd ?r) = [''m1'', ''m2'', ''m3'']"
    by code_simp+
  have r: "?r = (Normal, fst (snd ?r), snd (snd ?r))"
    using n by (simp add: prod_eq_iff)
  from require_again_injects_nothing [OF r] s show ?thesis
    by simp
qed

end
